theory Spec2Isabelle
  imports Main
begin

section \<open>Connect Game: data model\<close>

text \<open>
  The rules engine of \<^verbatim>\<open>js/connect-game.js\<close>: classes \<^verbatim>\<open>Player\<close>, \<^verbatim>\<open>ConnectGame\<close>,
  \<^verbatim>\<open>AIStrategy\<close> and \<^verbatim>\<open>OffensiveAI\<close>.

  Numbers are JavaScript numbers holding integers (they come from \<^verbatim>\<open>parseInt\<close> and from
  loop counters), so coordinates and dimensions are \<^typ>\<open>int\<close>; a player index is an array
  index, a \<^typ>\<open>nat\<close>. A board cell is \<^verbatim>\<open>null\<close> or a player index: \<^typ>\<open>nat option\<close>.

  The board is an array of \<^verbatim>\<open>height\<close> row arrays of \<^verbatim>\<open>width\<close> cells, built by
  \<^verbatim>\<open>reset\<close> (each row a fresh array, so rows do not alias) and never resized. It is
  modelled as a store from coordinates \<open>(row, col)\<close> to cells: \<^verbatim>\<open>this.board[row][col]\<close> is
  \<open>board g (row, col)\<close>, and the assignment \<^verbatim>\<open>this.board[row][col] = v\<close> is a function
  update. Every read and write of the source is preceded by a bounds check against
  \<^verbatim>\<open>height\<close> and \<^verbatim>\<open>width\<close> (or runs inside loops over exactly that range), and the
  model keeps each of these checks, so the store is only ever consulted inside the grid.
\<close>

datatype direction = Down | Right | Up | Left

datatype rotationMode = ModeNone | Clockwise | Counterclockwise | Random

record rotationConfig =
  turns :: int
  mode :: rotationMode

datatype playerKind = Human | AI

record player =
  index :: nat
  color :: string
  kind :: playerKind
  aiStrategy :: string
  team :: "nat option"

record game =
  width :: int
  height :: int
  winLength :: int
  gravity :: bool
  players :: "player list"
  gravityRotation :: "rotationConfig option"
  teamCollaboration :: bool
  board :: "int \<times> int \<Rightarrow> nat option"
  currentPlayerIndex :: nat
  gameOver :: bool
  winner :: "string option"
  winningCells :: "(int \<times> int) list"
  turnCount :: nat
  gravityDirection :: direction

record winResult =
  resultWinner :: string
  resultCells :: "(int \<times> int) list"
  resultPlayerIndex :: nat

section \<open>Player names\<close>

text \<open>\<^verbatim>\<open>Number.prototype.toString(radix)\<close> followed by \<^verbatim>\<open>toUpperCase()\<close>, for a
  non-negative integer: the digits, most significant first.\<close>

definition digitChar :: "nat \<Rightarrow> char" where
  "digitChar d = (''0123456789ABCDEF'') ! d"

function numberToString :: "nat \<Rightarrow> nat \<Rightarrow> string" where
  "numberToString radix n =
     (if n < radix \<and> 2 \<le> radix then [digitChar n]
      else if radix < 2 then []
      else numberToString radix (n div radix) @ [digitChar (n mod radix)])"
  by pat_completeness auto
termination
  by (relation "measure (\<lambda>(radix, n). n)") auto

declare numberToString.simps [simp del]

text \<open>\<^verbatim>\<open>Player.getName\<close>.\<close>

definition getName :: "player \<Rightarrow> string" where
  "getName p =
     (case team p of
        Some t \<Rightarrow> ''Team '' @ numberToString 10 (t + 1) @ '' - Player '' @ numberToString 16 (index p)
      | None \<Rightarrow> ''Player '' @ numberToString 16 (index p))"

section \<open>ConnectGame\<close>

text \<open>\<^verbatim>\<open>ConnectGame.reset\<close>: a fresh all-\<^verbatim>\<open>null\<close> board and the initial turn state; the
  configuration fields are left as they are.\<close>

definition reset :: "game \<Rightarrow> game" where
  "reset g = g\<lparr>board := (\<lambda>_. None),
              currentPlayerIndex := 0,
              gameOver := False,
              winner := None,
              winningCells := [],
              turnCount := 0,
              gravityDirection := Down\<rparr>"

text \<open>The constructor stores the configuration and calls \<^verbatim>\<open>reset\<close>.\<close>

definition newGame ::
  "int \<Rightarrow> int \<Rightarrow> int \<Rightarrow> bool \<Rightarrow> player list \<Rightarrow> rotationConfig option \<Rightarrow> bool \<Rightarrow> game" where
  "newGame w h wl grav ps rot collab =
     reset \<lparr>width = w, height = h, winLength = wl, gravity = grav, players = ps,
            gravityRotation = rot, teamCollaboration = collab,
            board = (\<lambda>_. None), currentPlayerIndex = 0, gameOver = False,
            winner = None, winningCells = [], turnCount = 0, gravityDirection = Down\<rparr>"

text \<open>The \<^verbatim>\<open>switch\<close> on \<^verbatim>\<open>gravityDirection\<close> that sets \<^verbatim>\<open>dr\<close> and \<^verbatim>\<open>dc\<close>.\<close>

fun gravityDelta :: "direction \<Rightarrow> int \<times> int" where
  "gravityDelta Down = (1, 0)"
| "gravityDelta Up = (-1, 0)"
| "gravityDelta Right = (0, 1)"
| "gravityDelta Left = (0, -1)"

text \<open>The negation of the test
  \<^verbatim>\<open>r < 0 || r >= this.height || c < 0 || c >= this.width\<close>.\<close>

definition inBounds :: "game \<Rightarrow> int \<Rightarrow> int \<Rightarrow> bool" where
  "inBounds g r c = (\<not> (r < 0 \<or> r \<ge> height g \<or> c < 0 \<or> c \<ge> width g))"

text \<open>Steps left before the edge of the grid in the direction of gravity; the measure of
  the \<^verbatim>\<open>while (true)\<close> loop of \<^verbatim>\<open>getGravityTarget\<close>.\<close>

fun edgeDistance :: "game \<Rightarrow> int \<times> int \<Rightarrow> nat" where
  "edgeDistance g (r, c) =
     (case gravityDirection g of
        Down \<Rightarrow> nat (height g - 1 - r)
      | Up \<Rightarrow> nat r
      | Right \<Rightarrow> nat (width g - 1 - c)
      | Left \<Rightarrow> nat c)"

text \<open>The loop of \<^verbatim>\<open>getGravityTarget\<close>, from the current \<^verbatim>\<open>(newRow, newCol)\<close>.\<close>

function gravityFall :: "game \<Rightarrow> int \<Rightarrow> int \<Rightarrow> int \<times> int" where
  "gravityFall g newRow newCol =
     (let nextRow = newRow + fst (gravityDelta (gravityDirection g));
          nextCol = newCol + snd (gravityDelta (gravityDirection g))
      in if nextRow < 0 \<or> nextRow \<ge> height g \<or> nextCol < 0 \<or> nextCol \<ge> width g \<or>
            board g (nextRow, nextCol) \<noteq> None
         then (newRow, newCol)
         else gravityFall g nextRow nextCol)"
  by pat_completeness auto
termination
  by (relation "measure (\<lambda>(g, r, c). edgeDistance g (r, c))")
     (auto split: direction.splits)

declare gravityFall.simps [simp del]

definition getGravityTarget :: "game \<Rightarrow> int \<Rightarrow> int \<Rightarrow> int \<times> int" where
  "getGravityTarget g row col = (if \<not> gravity g then (row, col) else gravityFall g row col)"

definition isValidMove :: "game \<Rightarrow> int \<Rightarrow> int \<Rightarrow> bool" where
  "isValidMove g row col =
     (if gameOver g then False
      else if col < 0 \<or> col \<ge> width g \<or> row < 0 \<or> row \<ge> height g then False
      else if gravity g \<and>
              (fst (getGravityTarget g row col) \<noteq> row \<or> snd (getGravityTarget g row col) \<noteq> col)
           then False
      else board g (row, col) = None)"

section \<open>Gravity\<close>

text \<open>\<^verbatim>\<open>applyGravity\<close> collects the occupied cells in row-major order, sorts them so that
  the cells furthest along the gravity direction come first (\<^verbatim>\<open>Array.prototype.sort\<close>
  is stable, as \<^const>\<open>sort_key\<close> is), and settles them one by one; it repeats the pass
  as long as a pass moved a piece.\<close>

definition occupiedPositions :: "game \<Rightarrow> (int \<times> int) list" where
  "occupiedPositions g =
     [(row, col). row \<leftarrow> [0..height g - 1], col \<leftarrow> [0..width g - 1], board g (row, col) \<noteq> None]"

definition sortPositions :: "game \<Rightarrow> (int \<times> int) list \<Rightarrow> (int \<times> int) list" where
  "sortPositions g positions =
     (case gravityDirection g of
        Down \<Rightarrow> sort_key (\<lambda>(r, c). - r) positions
      | Up \<Rightarrow> sort_key (\<lambda>(r, c). r) positions
      | Right \<Rightarrow> sort_key (\<lambda>(r, c). - c) positions
      | Left \<Rightarrow> sort_key (\<lambda>(r, c). c) positions)"

fun settlePiece :: "int \<times> int \<Rightarrow> game \<times> bool \<Rightarrow> game \<times> bool" where
  "settlePiece (row, col) (g, changed) =
     (if board g (row, col) = None then (g, changed)
      else let target = getGravityTarget g row col
           in if fst target \<noteq> row \<or> snd target \<noteq> col
              then (g\<lparr>board := ((board g)(target := board g (row, col)))((row, col) := None)\<rparr>, True)
              else (g, changed))"

definition gravityPass :: "game \<Rightarrow> game \<times> bool" where
  "gravityPass g = fold settlePiece (sortPositions g (occupiedPositions g)) (g, False)"

text \<open>The loop \<^verbatim>\<open>while (changed)\<close>: \<^verbatim>\<open>changed\<close> starts as true, so a first pass always
  runs, and the loop ends after the first pass that moves nothing. That it ends on every
  game is proved below, from the lemmas on a pass.\<close>

function settleLoop :: "game \<Rightarrow> game" where
  "settleLoop g =
     (case gravityPass g of (g', changed) \<Rightarrow> if changed then settleLoop g' else g')"
  by pat_completeness auto

definition applyGravity :: "game \<Rightarrow> game" where
  "applyGravity g = (if \<not> gravity g then g else settleLoop g)"

section \<open>Rotation of gravity\<close>

text \<open>The array \<^verbatim>\<open>['down', 'right', 'up', 'left']\<close> of \<^verbatim>\<open>rotateGravityIfNeeded\<close> and
  its \<^verbatim>\<open>indexOf\<close>.\<close>

definition directions :: "direction list" where
  "directions = [Down, Right, Up, Left]"

fun directionIndex :: "direction \<Rightarrow> nat" where
  "directionIndex Down = 0"
| "directionIndex Right = 1"
| "directionIndex Up = 2"
| "directionIndex Left = 3"

text \<open>\<^verbatim>\<open>rotateGravityIfNeeded\<close>. The argument \<open>randomDirection\<close> stands for
  \<^verbatim>\<open>directions[Math.floor(Math.random() * directions.length)]\<close>, the one value the
  method draws. The test \<^verbatim>\<open>turnCount % turns === 0\<close> fails when \<^verbatim>\<open>turns\<close> is 0
  (the remainder is \<^verbatim>\<open>NaN\<close>), and otherwise holds exactly when \<^verbatim>\<open>turns\<close> divides
  \<^verbatim>\<open>turnCount\<close>.\<close>

definition rotateGravityIfNeeded :: "game \<Rightarrow> direction \<Rightarrow> game" where
  "rotateGravityIfNeeded g randomDirection =
     (case gravityRotation g of
        None \<Rightarrow> g
      | Some rot \<Rightarrow>
          if mode rot = ModeNone then g
          else
            let g1 = g\<lparr>turnCount := turnCount g + 1\<rparr>
            in if turns rot \<noteq> 0 \<and> int (turnCount g1) mod turns rot = 0
               then applyGravity
                      (g1\<lparr>gravityDirection :=
                            (case mode rot of
                               Random \<Rightarrow> randomDirection
                             | Clockwise \<Rightarrow>
                                 directions ! ((directionIndex (gravityDirection g1) + 1) mod 4)
                             | Counterclockwise \<Rightarrow>
                                 directions ! ((directionIndex (gravityDirection g1) + 3) mod 4)
                             | ModeNone \<Rightarrow> gravityDirection g1)\<rparr>)
               else g1)"

section \<open>Win detection\<close>

text \<open>The four scan directions of \<^verbatim>\<open>checkWin\<close>, as \<open>(dr, dc)\<close>: horizontal, vertical,
  diagonal down-right, diagonal down-left.\<close>

definition winDirections :: "(int \<times> int) list" where
  "winDirections = [(0, 1), (1, 0), (1, 1), (1, -1)]"

text \<open>\<^verbatim>\<open>countsTowardWin\<close>: whether a cell of \<open>cellPlayer\<close> continues a run that started
  at a cell of \<open>playerIndex\<close>.\<close>

definition countsTowardWin :: "game \<Rightarrow> nat \<Rightarrow> nat \<Rightarrow> bool" where
  "countsTowardWin g playerIndex cellPlayer =
     (if cellPlayer = playerIndex then True
      else if teamCollaboration g
           then team (players g ! playerIndex) \<noteq> None \<and>
                team (players g ! cellPlayer) = team (players g ! playerIndex)
           else False)"

text \<open>The inner loop \<^verbatim>\<open>for (let i = 1; i < this.winLength; i++)\<close>, over the remaining
  values of \<open>i\<close>: the cells it pushes before it breaks or runs out.\<close>

fun extendRun :: "game \<Rightarrow> nat \<Rightarrow> int \<Rightarrow> int \<Rightarrow> int \<times> int \<Rightarrow> int list \<Rightarrow> (int \<times> int) list" where
  "extendRun g playerIndex row col d [] = []"
| "extendRun g playerIndex row col d (i # rest) =
     (let newRow = row + fst d * i; newCol = col + snd d * i
      in if newRow < 0 \<or> newRow \<ge> height g \<or> newCol < 0 \<or> newCol \<ge> width g then []
         else case board g (newRow, newCol) of
                None \<Rightarrow> []
              | Some cellPlayer \<Rightarrow>
                  if countsTowardWin g playerIndex cellPlayer
                  then (newRow, newCol) # extendRun g playerIndex row col d rest
                  else [])"

text \<open>The body of the three nested loops for one start cell and one direction: the
  result \<^verbatim>\<open>checkWin\<close> returns there, if any.\<close>

definition checkWinAt :: "game \<Rightarrow> int \<times> int \<times> (int \<times> int) \<Rightarrow> winResult option" where
  "checkWinAt g start =
     (case start of (row, col, d) \<Rightarrow>
        (case board g (row, col) of
           None \<Rightarrow> None
         | Some playerIndex \<Rightarrow>
             let cells = (row, col) # extendRun g playerIndex row col d [1..winLength g - 1]
             in if int (length cells) \<ge> winLength g
                then Some \<lparr>resultWinner =
                             (case team (players g ! playerIndex) of
                                Some winningTeam \<Rightarrow> ''Team '' @ numberToString 10 (winningTeam + 1)
                              | None \<Rightarrow> getName (players g ! playerIndex)),
                           resultCells = cells,
                           resultPlayerIndex = playerIndex\<rparr>
                else None))"

text \<open>The scan order: rows, then columns, then directions.\<close>

definition scanStarts :: "game \<Rightarrow> (int \<times> int \<times> (int \<times> int)) list" where
  "scanStarts g =
     [(row, col, d). row \<leftarrow> [0..height g - 1], col \<leftarrow> [0..width g - 1], d \<leftarrow> winDirections]"

text \<open>The first result in scan order, as the \<^verbatim>\<open>return\<close> inside the loops gives it.\<close>

fun firstResult :: "('a \<Rightarrow> 'b option) \<Rightarrow> 'a list \<Rightarrow> 'b option" where
  "firstResult f [] = None"
| "firstResult f (x # xs) = (case f x of Some y \<Rightarrow> Some y | None \<Rightarrow> firstResult f xs)"

definition checkWin :: "game \<Rightarrow> winResult option" where
  "checkWin g = firstResult (checkWinAt g) (scanStarts g)"

definition isBoardFull :: "game \<Rightarrow> bool" where
  "isBoardFull g =
     list_all (\<lambda>row. list_all (\<lambda>col. board g (row, col) \<noteq> None) [0..width g - 1])
       [0..height g - 1]"

section \<open>Win detection with the reads of the players array checked\<close>

text \<open>
  \<^verbatim>\<open>checkWin\<close> reads \<^verbatim>\<open>this.players[i].team\<close> at the indices it finds on the board.
  For an index outside the array \<^verbatim>\<open>this.players[i]\<close> is \<^verbatim>\<open>undefined\<close> and the read of
  \<^verbatim>\<open>.team\<close> throws a \<^verbatim>\<open>TypeError\<close>. The functions of this section are those of the
  previous one with every such read written out: they return \<open>Inl TypeError\<close> where the
  source throws. On a board that holds indices of the array only, they return what the
  functions above return (lemma \<open>checkWinE_valid\<close> below).
\<close>

datatype jsError = TypeError

text \<open>The read \<^verbatim>\<open>this.players[i]\<close> followed by a property access.\<close>

definition playerAt :: "game \<Rightarrow> nat \<Rightarrow> jsError + player" where
  "playerAt g i = (if i < length (players g) then Inr (players g ! i) else Inl TypeError)"

text \<open>\<^verbatim>\<open>countsTowardWin\<close>. In
  \<^verbatim>\<open>this.players[playerIndex].team !== null && this.players[cellPlayer].team === ...\<close>
  the right operand is evaluated only when the left one holds.\<close>

definition countsTowardWinE :: "game \<Rightarrow> nat \<Rightarrow> nat \<Rightarrow> jsError + bool" where
  "countsTowardWinE g playerIndex cellPlayer =
     (if cellPlayer = playerIndex then Inr True
      else if teamCollaboration g
           then (case playerAt g playerIndex of
                   Inl e \<Rightarrow> Inl e
                 | Inr originPlayer \<Rightarrow>
                     if team originPlayer = None then Inr False
                     else (case playerAt g cellPlayer of
                             Inl e \<Rightarrow> Inl e
                           | Inr otherPlayer \<Rightarrow> Inr (team otherPlayer = team originPlayer)))
           else Inr False)"

fun extendRunE ::
  "game \<Rightarrow> nat \<Rightarrow> int \<Rightarrow> int \<Rightarrow> int \<times> int \<Rightarrow> int list \<Rightarrow> jsError + (int \<times> int) list" where
  "extendRunE g playerIndex row col d [] = Inr []"
| "extendRunE g playerIndex row col d (i # rest) =
     (let newRow = row + fst d * i; newCol = col + snd d * i
      in if newRow < 0 \<or> newRow \<ge> height g \<or> newCol < 0 \<or> newCol \<ge> width g then Inr []
         else case board g (newRow, newCol) of
                None \<Rightarrow> Inr []
              | Some cellPlayer \<Rightarrow>
                  (case countsTowardWinE g playerIndex cellPlayer of
                     Inl e \<Rightarrow> Inl e
                   | Inr counts \<Rightarrow>
                       if counts
                       then (case extendRunE g playerIndex row col d rest of
                               Inl e \<Rightarrow> Inl e
                             | Inr cells \<Rightarrow> Inr ((newRow, newCol) # cells))
                       else Inr []))"

definition checkWinAtE :: "game \<Rightarrow> int \<times> int \<times> (int \<times> int) \<Rightarrow> jsError + winResult option" where
  "checkWinAtE g start =
     (case start of (row, col, d) \<Rightarrow>
        (case board g (row, col) of
           None \<Rightarrow> Inr None
         | Some playerIndex \<Rightarrow>
             (case extendRunE g playerIndex row col d [1..winLength g - 1] of
                Inl e \<Rightarrow> Inl e
              | Inr run \<Rightarrow>
                  let cells = (row, col) # run
                  in if int (length cells) \<ge> winLength g
                     then (case playerAt g playerIndex of
                             Inl e \<Rightarrow> Inl e
                           | Inr winningPlayer \<Rightarrow>
                               Inr (Some \<lparr>resultWinner =
                                            (case team winningPlayer of
                                               Some winningTeam \<Rightarrow>
                                                 ''Team '' @ numberToString 10 (winningTeam + 1)
                                             | None \<Rightarrow> getName winningPlayer),
                                          resultCells = cells,
                                          resultPlayerIndex = playerIndex\<rparr>))
                     else Inr None)))"

fun firstResultE :: "('a \<Rightarrow> jsError + 'b option) \<Rightarrow> 'a list \<Rightarrow> jsError + 'b option" where
  "firstResultE f [] = Inr None"
| "firstResultE f (x # xs) =
     (case f x of
        Inl e \<Rightarrow> Inl e
      | Inr (Some y) \<Rightarrow> Inr (Some y)
      | Inr None \<Rightarrow> firstResultE f xs)"

definition checkWinE :: "game \<Rightarrow> jsError + winResult option" where
  "checkWinE g = firstResultE (checkWinAtE g) (scanStarts g)"

section \<open>Moves\<close>

text \<open>\<^verbatim>\<open>makeMove\<close> returns its boolean together with the game after the call. The
  turn passes to \<^verbatim>\<open>(currentPlayerIndex + 1) % players.length\<close>; the array of players is
  not empty (the constructor's caller supplies at least two), so the remainder is a
  number.\<close>

definition makeMove :: "game \<Rightarrow> int \<Rightarrow> int \<Rightarrow> direction \<Rightarrow> bool \<times> game" where
  "makeMove g row col randomDirection =
     (if \<not> isValidMove g row col then (False, g)
      else
        let g1 = g\<lparr>board := (board g)((row, col) := Some (currentPlayerIndex g))\<rparr>
        in case checkWin g1 of
             Some winResult \<Rightarrow>
               (True, g1\<lparr>gameOver := True,
                         winner := Some (resultWinner winResult),
                         winningCells := resultCells winResult\<rparr>)
           | None \<Rightarrow>
               if isBoardFull g1 then (True, g1\<lparr>gameOver := True, winner := None\<rparr>)
               else
                 (True,
                  rotateGravityIfNeeded
                    (g1\<lparr>currentPlayerIndex :=
                          (currentPlayerIndex g1 + 1) mod length (players g1)\<rparr>)
                    randomDirection))"

section \<open>AI helpers and the offensive strategy\<close>

text \<open>\<^verbatim>\<open>AIStrategy.getValidMoves\<close>.\<close>

definition getValidMoves :: "game \<Rightarrow> (int \<times> int) list" where
  "getValidMoves g =
     (if gravity g then
        [(row, col).
           row \<leftarrow> [0..height g - 1], col \<leftarrow> [0..width g - 1],
           board g (row, col) = None,
           let nextRow = row + fst (gravityDelta (gravityDirection g));
               nextCol = col + snd (gravityDelta (gravityDirection g));
               isAtEdge = (nextRow < 0 \<or> nextRow \<ge> height g \<or> nextCol < 0 \<or> nextCol \<ge> width g);
               touchingFilled = (\<not> isAtEdge \<and> board g (nextRow, nextCol) \<noteq> None)
           in isAtEdge \<or> touchingFilled]
      else
        [(row, col). row \<leftarrow> [0..height g - 1], col \<leftarrow> [0..width g - 1], board g (row, col) = None])"

text \<open>\<^verbatim>\<open>AIStrategy.checkWinningMove\<close>: place, check, undo. It returns what the call
  returns or throws, together with the game as the call leaves it. The method has no
  \<^verbatim>\<open>try\<close>: when \<^verbatim>\<open>game.checkWin()\<close> throws, the assignment that removes the piece
  is not reached and the piece stays on the board.\<close>

definition checkWinningMove ::
  "game \<Rightarrow> int \<Rightarrow> int \<Rightarrow> nat \<Rightarrow> (jsError + winResult option) \<times> game" where
  "checkWinningMove g row col playerIndex =
     (let g1 = g\<lparr>board := (board g)((row, col) := Some playerIndex)\<rparr>
      in case checkWinE g1 of
           Inl e \<Rightarrow> (Inl e, g1)
         | Inr result \<Rightarrow> (Inr result, g1\<lparr>board := (board g1)((row, col) := None)\<rparr>))"

text \<open>The chain loops of \<^verbatim>\<open>OffensiveAI.evaluateMove\<close>, for one sign \<open>dir\<close>: the number of
  cells of the player or of a teammate met before the loop breaks.\<close>

fun chainCount :: "game \<Rightarrow> int \<times> int \<Rightarrow> nat \<Rightarrow> int \<times> int \<Rightarrow> int \<Rightarrow> int list \<Rightarrow> int" where
  "chainCount g move playerIndex d dir [] = 0"
| "chainCount g move playerIndex d dir (i # rest) =
     (let nr = fst move + fst d * i * dir; nc = snd move + snd d * i * dir
      in if nr < 0 \<or> nr \<ge> height g \<or> nc < 0 \<or> nc \<ge> width g then 0
         else case board g (nr, nc) of
                None \<Rightarrow> 0
              | Some cell \<Rightarrow>
                  let sameTeam = (team (players g ! playerIndex) \<noteq> None \<and>
                                  team (players g ! cell) = team (players g ! playerIndex))
                  in if cell = playerIndex \<or> sameTeam
                     then 1 + chainCount g move playerIndex d dir rest
                     else 0)"

text \<open>The room loops of \<^verbatim>\<open>evaluateMove\<close>, for one sign: the cells that are empty, the
  player's or a teammate's.\<close>

fun spaceCount :: "game \<Rightarrow> int \<times> int \<Rightarrow> nat \<Rightarrow> int \<times> int \<Rightarrow> int \<Rightarrow> int list \<Rightarrow> int" where
  "spaceCount g move playerIndex d dir [] = 0"
| "spaceCount g move playerIndex d dir (i # rest) =
     (let nr = fst move + fst d * i * dir; nc = snd move + snd d * i * dir
      in if nr < 0 \<or> nr \<ge> height g \<or> nc < 0 \<or> nc \<ge> width g then 0
         else if (case board g (nr, nc) of
                    None \<Rightarrow> True
                  | Some cell \<Rightarrow>
                      cell = playerIndex \<or>
                      (team (players g ! playerIndex) \<noteq> None \<and>
                       team (players g ! cell) = team (players g ! playerIndex)))
              then 1 + spaceCount g move playerIndex d dir rest
              else 0)"

text \<open>The loop of \<^verbatim>\<open>evaluateMove\<close> over the directions, with \<^verbatim>\<open>maxExtension\<close> as the
  accumulator; the \<^verbatim>\<open>return 1000\<close> leaves the loop.\<close>

fun evaluateDirections :: "game \<Rightarrow> int \<times> int \<Rightarrow> nat \<Rightarrow> (int \<times> int) list \<Rightarrow> int \<Rightarrow> int" where
  "evaluateDirections g move playerIndex [] maxExtension =
     (if maxExtension > 0 then maxExtension else 1)"
| "evaluateDirections g move playerIndex (d # rest) maxExtension =
     (let chainLength = chainCount g move playerIndex d (-1) [1..winLength g - 1] +
                        chainCount g move playerIndex d 1 [1..winLength g - 1];
          potential = chainLength + 1
      in if potential \<ge> winLength g then 1000
         else
           let spacesAvailable = 1 + spaceCount g move playerIndex d (-1) [1..winLength g - 1] +
                                 spaceCount g move playerIndex d 1 [1..winLength g - 1]
           in evaluateDirections g move playerIndex rest
                (if spacesAvailable \<ge> winLength g
                 then max maxExtension (chainLength * 10 + spacesAvailable)
                 else maxExtension))"

definition evaluateMove :: "game \<Rightarrow> int \<times> int \<Rightarrow> nat \<Rightarrow> int" where
  "evaluateMove g move playerIndex = evaluateDirections g move playerIndex winDirections 0"

text \<open>The selection loop of \<^verbatim>\<open>OffensiveAI.getMove\<close>, with \<^verbatim>\<open>bestMove\<close> and
  \<^verbatim>\<open>bestScore\<close> as the accumulator.\<close>

fun bestOffensive ::
  "game \<Rightarrow> nat \<Rightarrow> (int \<times> int) list \<Rightarrow> (int \<times> int) option \<times> int \<Rightarrow> (int \<times> int) option \<times> int" where
  "bestOffensive g playerIndex [] best = best"
| "bestOffensive g playerIndex (move # rest) (bestMove, bestScore) =
     (let score = evaluateMove g move playerIndex
      in if score > bestScore then bestOffensive g playerIndex rest (Some move, score)
         else bestOffensive g playerIndex rest (bestMove, bestScore))"

text \<open>\<^verbatim>\<open>OffensiveAI.getMove\<close>. The argument \<open>randomIndex\<close> stands for
  \<^verbatim>\<open>Math.floor(Math.random() * moves.length)\<close>; indexing \<^verbatim>\<open>moves\<close> outside its range
  gives \<^verbatim>\<open>undefined\<close>, here \<open>None\<close>.\<close>

definition offensiveGetMove :: "game \<Rightarrow> nat \<Rightarrow> nat \<Rightarrow> (int \<times> int) option" where
  "offensiveGetMove g playerIndex randomIndex =
     (let moves = getValidMoves g
      in case fst (bestOffensive g playerIndex moves (None, -1)) of
           Some bestMove \<Rightarrow> Some bestMove
         | None \<Rightarrow> if randomIndex < length moves then Some (moves ! randomIndex) else None)"

section \<open>Sequences of calls\<close>

text \<open>The guard of \<^verbatim>\<open>rotateGravityIfNeeded\<close>, negated: a rotation is configured and its
  mode is not \<^verbatim>\<open>'none'\<close>.\<close>

definition rotationActive :: "game \<Rightarrow> bool" where
  "rotationActive g = (case gravityRotation g of None \<Rightarrow> False | Some rot \<Rightarrow> mode rot \<noteq> ModeNone)"

text \<open>A caller that issues \<^verbatim>\<open>makeMove\<close> calls one after the other, each with the value
  the random draw would give; the game after the last call, the number of calls that
  returned true, the number of those that also left the game running, and whether
  every call did.\<close>

fun playMoves :: "game \<Rightarrow> (int \<times> int \<times> direction) list \<Rightarrow> game" where
  "playMoves g [] = g"
| "playMoves g ((row, col, randomDirection) # rest) =
     playMoves (snd (makeMove g row col randomDirection)) rest"

fun successfulMoves :: "game \<Rightarrow> (int \<times> int \<times> direction) list \<Rightarrow> nat" where
  "successfulMoves g [] = 0"
| "successfulMoves g ((row, col, randomDirection) # rest) =
     (if fst (makeMove g row col randomDirection) then 1 else 0) +
     successfulMoves (snd (makeMove g row col randomDirection)) rest"

fun advancingMoves :: "game \<Rightarrow> (int \<times> int \<times> direction) list \<Rightarrow> nat" where
  "advancingMoves g [] = 0"
| "advancingMoves g ((row, col, randomDirection) # rest) =
     (if fst (makeMove g row col randomDirection) \<and>
         \<not> gameOver (snd (makeMove g row col randomDirection)) then 1 else 0) +
     advancingMoves (snd (makeMove g row col randomDirection)) rest"

fun allAdvancing :: "game \<Rightarrow> (int \<times> int \<times> direction) list \<Rightarrow> bool" where
  "allAdvancing g [] = True"
| "allAdvancing g ((row, col, randomDirection) # rest) =
     (fst (makeMove g row col randomDirection) \<and>
      \<not> gameOver (snd (makeMove g row col randomDirection)) \<and>
      allAdvancing (snd (makeMove g row col randomDirection)) rest)"

text \<open>The cycle down, right, up, left, down.\<close>

fun clockwiseNext :: "direction \<Rightarrow> direction" where
  "clockwiseNext Down = Right"
| "clockwiseNext Right = Up"
| "clockwiseNext Up = Left"
| "clockwiseNext Left = Down"

section \<open>Counting pieces\<close>

text \<open>The cells of the grid in row-major order, and the number of them that hold a
  given player index.\<close>

definition allCells :: "game \<Rightarrow> (int \<times> int) list" where
  "allCells g = [(row, col). row \<leftarrow> [0..height g - 1], col \<leftarrow> [0..width g - 1]]"

definition countPieces :: "game \<Rightarrow> nat \<Rightarrow> nat" where
  "countPieces g playerIndex = length (filter (\<lambda>cell. board g cell = Some playerIndex) (allCells g))"

section \<open>Runs\<close>

text \<open>
  A run, in the words of the specification: starting at an occupied cell of the grid,
  \<open>n\<close> contiguous cells along a direction, each further cell inside the grid and held
  by the same player as the first or, with team collaboration, by a teammate of that
  player. \<open>start\<close> is the first cell and the direction.
\<close>

definition qualifyingRun :: "game \<Rightarrow> int \<Rightarrow> int \<times> int \<times> (int \<times> int) \<Rightarrow> bool" where
  "qualifyingRun g n start =
     (case start of (row, col, d) \<Rightarrow>
        inBounds g row col \<and>
        (case board g (row, col) of
           None \<Rightarrow> False
         | Some p \<Rightarrow>
             (\<forall>i \<in> {1..<n}.
                inBounds g (row + fst d * i) (col + snd d * i) \<and>
                (case board g (row + fst d * i, col + snd d * i) of
                   None \<Rightarrow> False
                 | Some q \<Rightarrow> countsTowardWin g p q))))"


text \<open>Cell \<open>i\<close> along the direction continues a run of player \<open>p\<close>.\<close>

definition cellContinues :: "game \<Rightarrow> nat \<Rightarrow> int \<Rightarrow> int \<Rightarrow> int \<times> int \<Rightarrow> int \<Rightarrow> bool" where
  "cellContinues g p row col d i =
     (inBounds g (row + fst d * i) (col + snd d * i) \<and>
      (case board g (row + fst d * i, col + snd d * i) of
         None \<Rightarrow> False
       | Some q \<Rightarrow> countsTowardWin g p q))"

section \<open>Notions used in the proofs\<close>

text \<open>The cells of the grid, as a set.\<close>

definition grid :: "game \<Rightarrow> (int \<times> int) set" where
  "grid g = {0..height g - 1} \<times> {0..width g - 1}"

text \<open>The occupied cells of the grid.\<close>

definition occupied :: "game \<Rightarrow> (int \<times> int) set" where
  "occupied g = {x \<in> grid g. board g x \<noteq> None}"

text \<open>The sum, over the pieces on the grid, of their distances to the edge that gravity
  pulls towards.\<close>

definition totalDistance :: "game \<Rightarrow> nat" where
  "totalDistance g = sum (edgeDistance g) (occupied g)"

text \<open>The two assignments by which \<^verbatim>\<open>applyGravity\<close> moves a piece from \<open>src\<close> to
  \<open>tgt\<close>.\<close>

definition movePiece :: "game \<Rightarrow> int \<times> int \<Rightarrow> int \<times> int \<Rightarrow> game" where
  "movePiece g src tgt = g\<lparr>board := ((board g)(tgt := board g src))(src := None)\<rparr>"

text \<open>Two games that differ in the board at most.\<close>

definition sameFrame :: "game \<Rightarrow> game \<Rightarrow> bool" where
  "sameFrame g g' = (g' = g\<lparr>board := board g'\<rparr>)"

text \<open>The cells of the grid that hold a given player index.\<close>

definition piecesOf :: "game \<Rightarrow> nat \<Rightarrow> (int \<times> int) set" where
  "piecesOf g p = {x \<in> grid g. board g x = Some p}"

text \<open>The invariant of the games that \<^verbatim>\<open>reset\<close> and \<^verbatim>\<open>makeMove\<close> produce from a
  non-empty array of players: the current player and every piece on the board are
  indices into that array.\<close>

definition wellFormed :: "game \<Rightarrow> bool" where
  "wellFormed g =
     (players g \<noteq> [] \<and> currentPlayerIndex g < length (players g) \<and>
      (\<forall>cell p. board g cell = Some p \<longrightarrow> p < length (players g)))"

text \<open>A game that differs from another in the board at most and holds no player index
  the other does not hold.\<close>

definition piecesFrom :: "game \<Rightarrow> game \<Rightarrow> bool" where
  "piecesFrom g g' =
     (sameFrame g g' \<and> (\<forall>cell p. board g' cell = Some p \<longrightarrow> (\<exists>cell'. board g cell' = Some p)))"

text \<open>Cell \<open>i\<close> on the side \<open>dir\<close> of a move along \<open>d\<close> lies in the grid and holds
  player \<open>p\<close>.\<close>

definition ownCell :: "game \<Rightarrow> nat \<Rightarrow> int \<times> int \<Rightarrow> int \<times> int \<Rightarrow> int \<Rightarrow> int \<Rightarrow> bool" where
  "ownCell g p move d dir i =
     (inBounds g (fst move + fst d * i * dir) (snd move + snd d * i * dir) \<and>
      board g (fst move + fst d * i * dir, snd move + snd d * i * dir) = Some p)"

text \<open>The test \<^verbatim>\<open>totalDistance >= game.winLength\<close> of \<^verbatim>\<open>evaluateMove\<close> for one
  direction.\<close>

definition completes :: "game \<Rightarrow> int \<times> int \<Rightarrow> nat \<Rightarrow> int \<times> int \<Rightarrow> bool" where
  "completes g move p d =
     (winLength g \<le>
        chainCount g move p d (-1) [1..winLength g - 1] +
        chainCount g move p d 1 [1..winLength g - 1] + 1)"

text \<open>The game with a piece of player \<open>p\<close> placed at a cell, as \<^verbatim>\<open>checkWinningMove\<close>
  hands it to \<^verbatim>\<open>checkWin\<close>.\<close>

definition placed :: "game \<Rightarrow> int \<times> int \<Rightarrow> nat \<Rightarrow> game" where
  "placed g move p = g\<lparr>board := (board g)(move := Some p)\<rparr>"

section \<open>Example games\<close>

text \<open>A 3 by 3 game without gravity, three in a row wins, two players without teams.\<close>

definition exampleGame :: game where
  "exampleGame = newGame 3 3 3 False
     [\<lparr>index = 0, color = ''red'', kind = Human, aiStrategy = ''random'', team = None\<rparr>,
      \<lparr>index = 1, color = ''blue'', kind = AI, aiStrategy = ''smart'', team = None\<rparr>] None True"

text \<open>That game after the first player has taken the top-right cell.\<close>

definition probeGame :: game where
  "probeGame = playMoves exampleGame [(0, 2, Down)]"

text \<open>A 4 by 4 game with gravity that turns clockwise after every move.\<close>

definition rotatingGame :: game where
  "rotatingGame = newGame 4 4 4 True
     [\<lparr>index = 0, color = ''red'', kind = Human, aiStrategy = ''random'', team = None\<rparr>,
      \<lparr>index = 1, color = ''blue'', kind = Human, aiStrategy = ''random'', team = None\<rparr>]
     (Some \<lparr>turns = 1, mode = Clockwise\<rparr>) True"

text \<open>The same game with two pieces hanging in the air, as a rotation leaves them before
  \<^verbatim>\<open>applyGravity\<close> runs.\<close>

definition floatingGame :: game where
  "floatingGame = rotatingGame\<lparr>board := (\<lambda>_. None)((0, 0) := Some 0, (1, 2) := Some 1)\<rparr>"




text \<open>A 5 by 5 game without gravity, four in a row wins, team collaboration disabled.
  Players 0 and 1 form team 0, player 2 has no team. Nine moves have been played, three
  by each player, and it is the turn of player 0: player 1 holds the first three cells
  of the top row, player 0 the first three cells of the middle row.\<close>

definition rivalGame :: game where
  "rivalGame =
     playMoves
       (newGame 5 5 4 False
          [\<lparr>index = 0, color = ''red'', kind = AI, aiStrategy = ''offensive'', team = Some 0\<rparr>,
           \<lparr>index = 1, color = ''red'', kind = Human, aiStrategy = ''random'', team = Some 0\<rparr>,
           \<lparr>index = 2, color = ''blue'', kind = Human, aiStrategy = ''random'', team = None\<rparr>]
          None False)
       [(2, 0, Down), (0, 0, Down), (4, 0, Down),
        (2, 1, Down), (0, 1, Down), (4, 2, Down),
        (2, 2, Down), (0, 2, Down), (4, 4, Down)]"

text \<open>The same board in a game of three players that have no team.\<close>

definition soloGame :: game where
  "soloGame = (newGame 5 5 4 False
     [\<lparr>index = 0, color = ''red'', kind = AI, aiStrategy = ''offensive'', team = None\<rparr>,
      \<lparr>index = 1, color = ''green'', kind = Human, aiStrategy = ''random'', team = None\<rparr>,
      \<lparr>index = 2, color = ''blue'', kind = Human, aiStrategy = ''random'', team = None\<rparr>]
     None False)\<lparr>board :=
       (\<lambda>_. None)((2, 0) := Some 0, (0, 0) := Some 1, (4, 0) := Some 2,
                   (2, 1) := Some 0, (0, 1) := Some 1, (4, 2) := Some 2,
                   (2, 2) := Some 0, (0, 2) := Some 1, (4, 4) := Some 2)\<rparr>"

section \<open>Termination of the settling loop\<close>

text \<open>A piece only ever moves to an empty cell of the grid that lies strictly further
  along the gravity direction. The sum of the distances of all pieces to the edge
  therefore drops with every pass that moves a piece.\<close>

lemma gravityFall_le: "edgeDistance g (gravityFall g r c) \<le> edgeDistance g (r, c)"
proof (induction g r c rule: gravityFall.induct)
  case (1 g newRow newCol)
  show ?case
    apply (subst gravityFall.simps)
    apply (simp only: Let_def split: if_splits)
    apply (intro conjI impI)
     apply simp
    apply (rule order_trans[OF 1])
    apply (auto split: direction.splits)
    done
qed

lemma gravityFall_cases:
  "gravityFall g r c = (r, c) \<or>
   (board g (gravityFall g r c) = None \<and>
    inBounds g (fst (gravityFall g r c)) (snd (gravityFall g r c)) \<and>
    edgeDistance g (gravityFall g r c) < edgeDistance g (r, c))"
proof (induction g r c rule: gravityFall.induct)
  case (1 g newRow newCol)
  let ?nr = "newRow + fst (gravityDelta (gravityDirection g))"
  let ?nc = "newCol + snd (gravityDelta (gravityDirection g))"
  show ?case
  proof (cases "?nr < 0 \<or> ?nr \<ge> height g \<or> ?nc < 0 \<or> ?nc \<ge> width g \<or> board g (?nr, ?nc) \<noteq> None")
    case True
    then show ?thesis by (subst gravityFall.simps) (simp add: Let_def)
  next
    case False
    then have eq: "gravityFall g newRow newCol = gravityFall g ?nr ?nc"
      by (subst gravityFall.simps) (simp add: Let_def)
    have lt: "edgeDistance g (?nr, ?nc) < edgeDistance g (newRow, newCol)"
      using False by (auto split: direction.splits)
    have ih: "gravityFall g ?nr ?nc = (?nr, ?nc) \<or>
       (board g (gravityFall g ?nr ?nc) = None \<and>
        inBounds g (fst (gravityFall g ?nr ?nc)) (snd (gravityFall g ?nr ?nc)) \<and>
        edgeDistance g (gravityFall g ?nr ?nc) < edgeDistance g (?nr, ?nc))"
      using 1[OF refl refl] False by simp
    from ih show ?thesis
    proof
      assume h: "gravityFall g ?nr ?nc = (?nr, ?nc)"
      have "board g (?nr, ?nc) = None" "inBounds g ?nr ?nc"
        using False by (auto simp: inBounds_def)
      with h lt eq show ?thesis by simp
    next
      assume "board g (gravityFall g ?nr ?nc) = None \<and>
        inBounds g (fst (gravityFall g ?nr ?nc)) (snd (gravityFall g ?nr ?nc)) \<and>
        edgeDistance g (gravityFall g ?nr ?nc) < edgeDistance g (?nr, ?nc)"
      with lt eq show ?thesis by simp
    qed
  qed
qed

lemma grid_inBounds: "(r, c) \<in> grid g \<longleftrightarrow> inBounds g r c"
  by (auto simp: grid_def inBounds_def)

lemma finite_occupied: "finite (occupied g)"
  by (simp add: occupied_def grid_def)

lemma edgeDistance_movePiece: "edgeDistance (movePiece g src tgt) x = edgeDistance g x"
  by (cases x) (simp add: movePiece_def split: direction.splits)

lemma occupied_movePiece:
  assumes "src \<in> grid g" "tgt \<in> grid g" "board g src \<noteq> None" "board g tgt = None"
  shows "occupied (movePiece g src tgt) = insert tgt (occupied g - {src})"
  using assms by (auto simp: occupied_def movePiece_def grid_def)

lemma totalDistance_movePiece:
  assumes "src \<in> grid g" "tgt \<in> grid g" "board g src \<noteq> None" "board g tgt = None"
    and "edgeDistance g tgt < edgeDistance g src"
  shows "totalDistance (movePiece g src tgt) < totalDistance g"
proof -
  let ?R = "occupied g - {src}"
  have fin: "finite ?R" using finite_occupied by simp
  have src: "src \<in> occupied g" using assms by (simp add: occupied_def)
  have tgt: "tgt \<notin> ?R" using assms by (simp add: occupied_def)
  have "totalDistance (movePiece g src tgt) = sum (edgeDistance g) (insert tgt ?R)"
    unfolding totalDistance_def occupied_movePiece[OF assms(1-4)]
    by (rule sum.cong) (simp_all add: edgeDistance_movePiece)
  also have "\<dots> = edgeDistance g tgt + sum (edgeDistance g) ?R"
    using fin tgt by simp
  also have "\<dots> < edgeDistance g src + sum (edgeDistance g) ?R"
    using assms(5) by simp
  also have "\<dots> = totalDistance g"
    unfolding totalDistance_def using sum.remove[OF finite_occupied src, of "edgeDistance g"] by simp
  finally show ?thesis .
qed

lemma settlePiece_unmoved:
  "board g (row, col) = None \<or> getGravityTarget g row col = (row, col) \<Longrightarrow>
   settlePiece (row, col) (g, ch) = (g, ch)"
  by (elim disjE) (simp_all add: Let_def)

lemma settlePiece_moved:
  "board g (row, col) \<noteq> None \<Longrightarrow> getGravityTarget g row col \<noteq> (row, col) \<Longrightarrow>
   settlePiece (row, col) (g, ch) = (movePiece g (row, col) (getGravityTarget g row col), True)"
  by (cases "getGravityTarget g row col") (auto simp: Let_def movePiece_def)

lemma settlePiece_step:
  assumes "inBounds g row col"
  shows "settlePiece (row, col) (g, ch) = (g, ch) \<or>
         (\<exists>tgt. settlePiece (row, col) (g, ch) = (movePiece g (row, col) tgt, True) \<and>
                tgt \<noteq> (row, col) \<and> (row, col) \<in> grid g \<and> tgt \<in> grid g \<and>
                board g (row, col) \<noteq> None \<and> board g tgt = None \<and>
                edgeDistance g tgt < edgeDistance g (row, col))"
proof (cases "board g (row, col) = None \<or> getGravityTarget g row col = (row, col)")
  case True
  then show ?thesis using settlePiece_unmoved by blast
next
  case False
  then have occ: "board g (row, col) \<noteq> None" and ne': "getGravityTarget g row col \<noteq> (row, col)"
    by simp_all
  have tg: "getGravityTarget g row col = gravityFall g row col"
    using ne' by (simp add: getGravityTarget_def split: if_splits)
  have ne: "gravityFall g row col \<noteq> (row, col)" using ne' tg by simp
  from gravityFall_cases[of g row col] ne
  have props: "board g (gravityFall g row col) = None"
    "inBounds g (fst (gravityFall g row col)) (snd (gravityFall g row col))"
    "edgeDistance g (gravityFall g row col) < edgeDistance g (row, col)"
    by blast+
  have mv: "settlePiece (row, col) (g, ch) = (movePiece g (row, col) (gravityFall g row col), True)"
    using settlePiece_moved[OF occ ne'] tg by simp
  have tin: "gravityFall g row col \<in> grid g"
    using props(2) grid_inBounds[of "fst (gravityFall g row col)" "snd (gravityFall g row col)" g] by simp
  have sin: "(row, col) \<in> grid g" using assms by (simp add: grid_inBounds)
  show ?thesis
    using mv ne sin tin occ props(1) props(3) by blast
qed

lemma sameFrame_refl: "sameFrame g g"
  by (simp add: sameFrame_def)

lemma sameFrame_movePiece: "sameFrame g (movePiece g src tgt)"
  by (simp add: sameFrame_def movePiece_def)

lemma sameFrame_trans: "sameFrame g g' \<Longrightarrow> sameFrame g' g'' \<Longrightarrow> sameFrame g g''"
  unfolding sameFrame_def
proof -
  assume a: "g' = g\<lparr>board := board g'\<rparr>" and b: "g'' = g'\<lparr>board := board g''\<rparr>"
  have "g'' = (g\<lparr>board := board g'\<rparr>)\<lparr>board := board g''\<rparr>" using a b by simp
  then show "g'' = g\<lparr>board := board g''\<rparr>" by simp
qed

lemma sameFrame_fields:
  assumes "sameFrame g g'"
  shows "height g' = height g" "width g' = width g" "gravityDirection g' = gravityDirection g"
    "gravity g' = gravity g" "turnCount g' = turnCount g" "gravityRotation g' = gravityRotation g"
    "players g' = players g" "currentPlayerIndex g' = currentPlayerIndex g"
    "gameOver g' = gameOver g" "winner g' = winner g" "winningCells g' = winningCells g"
    "winLength g' = winLength g" "teamCollaboration g' = teamCollaboration g"
proof -
  have e: "g' = g\<lparr>board := board g'\<rparr>" using assms by (simp add: sameFrame_def)
  show "height g' = height g" by (subst e) simp
  show "width g' = width g" by (subst e) simp
  show "gravityDirection g' = gravityDirection g" by (subst e) simp
  show "gravity g' = gravity g" by (subst e) simp
  show "turnCount g' = turnCount g" by (subst e) simp
  show "gravityRotation g' = gravityRotation g" by (subst e) simp
  show "players g' = players g" by (subst e) simp
  show "currentPlayerIndex g' = currentPlayerIndex g" by (subst e) simp
  show "gameOver g' = gameOver g" by (subst e) simp
  show "winner g' = winner g" by (subst e) simp
  show "winningCells g' = winningCells g" by (subst e) simp
  show "winLength g' = winLength g" by (subst e) simp
  show "teamCollaboration g' = teamCollaboration g" by (subst e) simp
qed

lemma sameFrame_inBounds: "sameFrame g g' \<Longrightarrow> inBounds g' r c = inBounds g r c"
  by (simp add: inBounds_def sameFrame_fields)

declare settlePiece.simps [simp del]

lemma fold_settlePiece:
  "(\<And>p. p \<in> set ps \<Longrightarrow> inBounds g (fst p) (snd p)) \<Longrightarrow>
   sameFrame g (fst (fold settlePiece ps (g, ch))) \<and>
   totalDistance (fst (fold settlePiece ps (g, ch))) \<le> totalDistance g \<and>
   (snd (fold settlePiece ps (g, ch)) \<and> \<not> ch \<longrightarrow>
      totalDistance (fst (fold settlePiece ps (g, ch))) < totalDistance g)"
proof (induction ps arbitrary: g ch)
  case Nil
  then show ?case by (simp add: sameFrame_refl)
next
  case (Cons p ps)
  obtain row col where p: "p = (row, col)" by (cases p)
  have inb: "inBounds g row col" using Cons.prems[of p] p by simp
  from settlePiece_step[OF inb, of ch]
  show ?case
  proof
    assume un: "settlePiece (row, col) (g, ch) = (g, ch)"
    have "\<And>q. q \<in> set ps \<Longrightarrow> inBounds g (fst q) (snd q)" using Cons.prems by simp
    from Cons.IH[OF this, of ch]
    have ih: "sameFrame g (fst (fold settlePiece ps (g, ch))) \<and>
      totalDistance (fst (fold settlePiece ps (g, ch))) \<le> totalDistance g \<and>
      (snd (fold settlePiece ps (g, ch)) \<and> \<not> ch \<longrightarrow>
         totalDistance (fst (fold settlePiece ps (g, ch))) < totalDistance g)" .
    have eq: "fold settlePiece (p # ps) (g, ch) = fold settlePiece ps (g, ch)"
      using un p by simp
    show ?thesis unfolding eq by (rule ih)
  next
    assume "\<exists>tgt. settlePiece (row, col) (g, ch) = (movePiece g (row, col) tgt, True) \<and>
                tgt \<noteq> (row, col) \<and> (row, col) \<in> grid g \<and> tgt \<in> grid g \<and>
                board g (row, col) \<noteq> None \<and> board g tgt = None \<and>
                edgeDistance g tgt < edgeDistance g (row, col)"
    then obtain tgt where mv: "settlePiece (row, col) (g, ch) = (movePiece g (row, col) tgt, True)"
      and facts: "(row, col) \<in> grid g" "tgt \<in> grid g" "board g (row, col) \<noteq> None"
        "board g tgt = None" "edgeDistance g tgt < edgeDistance g (row, col)"
      by blast
    let ?m = "movePiece g (row, col) tgt"
    have sf: "sameFrame g ?m" by (rule sameFrame_movePiece)
    have lt: "totalDistance ?m < totalDistance g" by (rule totalDistance_movePiece[OF facts])
    have "\<And>q. q \<in> set ps \<Longrightarrow> inBounds ?m (fst q) (snd q)"
      using Cons.prems sameFrame_inBounds[OF sf] by simp
    from Cons.IH[OF this, of True]
    have ih: "sameFrame ?m (fst (fold settlePiece ps (?m, True)))"
      "totalDistance (fst (fold settlePiece ps (?m, True))) \<le> totalDistance ?m"
      by simp_all
    have eq: "fold settlePiece (p # ps) (g, ch) = fold settlePiece ps (?m, True)"
      using mv p by simp
    show ?thesis
      unfolding eq using ih lt sameFrame_trans[OF sf ih(1)] by simp
  qed
qed

lemma set_occupiedPositions: "set (occupiedPositions g) = occupied g"
  by (auto simp: occupiedPositions_def occupied_def grid_def)

lemma set_sortPositions: "set (sortPositions g ps) = set ps"
  by (simp add: sortPositions_def split: direction.splits)

lemma gravityPass_frame: "sameFrame g (fst (gravityPass g))"
  and gravityPass_totalDistance: "snd (gravityPass g) \<Longrightarrow> totalDistance (fst (gravityPass g)) < totalDistance g"
proof -
  have inb: "\<And>p. p \<in> set (sortPositions g (occupiedPositions g)) \<Longrightarrow> inBounds g (fst p) (snd p)"
    by (auto simp: set_sortPositions set_occupiedPositions occupied_def grid_inBounds)
  from fold_settlePiece[OF inb, where ch = False]
  show "sameFrame g (fst (gravityPass g))"
    and "snd (gravityPass g) \<Longrightarrow> totalDistance (fst (gravityPass g)) < totalDistance g"
    by (simp_all add: gravityPass_def)
qed

termination settleLoop
proof (relation "measure totalDistance")
  show "wf (measure totalDistance)" by simp
next
  fix g x1 x2
  assume "(x1, x2) = gravityPass g" and "x2"
  then show "(x1, g) \<in> measure totalDistance"
    using gravityPass_totalDistance[of g] by (simp add: prod_eq_iff)
qed

declare settleLoop.simps [simp del]

section \<open>The settling loop changes nothing but the board\<close>

lemma settleLoop_frame: "sameFrame g (settleLoop g)"
proof (induction g rule: settleLoop.induct)
  case (1 g)
  obtain g' changed where gp: "gravityPass g = (g', changed)" by (cases "gravityPass g")
  have f1: "sameFrame g g'" using gravityPass_frame[of g] gp by simp
  show ?case
  proof (cases changed)
    case True
    have "sameFrame g' (settleLoop g')" using 1[OF gp[symmetric] True] .
    then have "sameFrame g (settleLoop g')" using f1 sameFrame_trans by blast
    moreover have "settleLoop g = settleLoop g'"
      by (subst settleLoop.simps) (simp add: gp True)
    ultimately show ?thesis by simp
  next
    case False
    have "settleLoop g = g'" by (subst settleLoop.simps) (simp add: gp False)
    then show ?thesis using f1 by simp
  qed
qed

lemma applyGravity_frame: "sameFrame g (applyGravity g)"
  by (simp add: applyGravity_def settleLoop_frame sameFrame_refl)

section \<open>Validity of a move\<close>

lemma isValidMove_alt:
  "isValidMove g row col \<longleftrightarrow>
     \<not> gameOver g \<and> inBounds g row col \<and>
     (gravity g \<longrightarrow> getGravityTarget g row col = (row, col)) \<and> board g (row, col) = None"
  by (auto simp: isValidMove_def inBounds_def prod_eq_iff)

section \<open>Player indices on the board\<close>

text \<open>
  \<^verbatim>\<open>checkWin\<close> and \<^verbatim>\<open>evaluateMove\<close> read \<^verbatim>\<open>this.players[...]\<close> at the indices they
  find on the board. In every game played from a reset with at least one player these
  are indices of the array: the board only ever receives the current player index, and
  gravity only moves pieces.
\<close>

lemma piecesFrom_refl: "piecesFrom g g"
  by (auto simp: piecesFrom_def sameFrame_refl)

lemma piecesFrom_trans: "piecesFrom g g' \<Longrightarrow> piecesFrom g' g'' \<Longrightarrow> piecesFrom g g''"
  unfolding piecesFrom_def using sameFrame_trans by blast

lemma piecesFrom_movePiece: "piecesFrom g (movePiece g src tgt)"
  unfolding piecesFrom_def
proof (intro conjI allI impI)
  show "sameFrame g (movePiece g src tgt)" by (rule sameFrame_movePiece)
next
  fix cell p assume "board (movePiece g src tgt) cell = Some p"
  then have "board g src = Some p \<or> board g cell = Some p"
    by (auto simp: movePiece_def split: if_splits)
  then show "\<exists>cell'. board g cell' = Some p" by blast
qed

lemma piecesFrom_settlePiece: "piecesFrom g (fst (settlePiece x (g, ch)))"
proof -
  obtain row col where x: "x = (row, col)" by (cases x)
  show ?thesis
  proof (cases "board g (row, col) = None \<or> getGravityTarget g row col = (row, col)")
    case True
    then show ?thesis using settlePiece_unmoved[of g row col ch] x by (simp add: piecesFrom_refl)
  next
    case False
    then show ?thesis
      using settlePiece_moved[of g row col ch] x by (simp add: piecesFrom_movePiece)
  qed
qed

lemma piecesFrom_fold: "piecesFrom g (fst (fold settlePiece xs (g, ch)))"
proof (induction xs arbitrary: g ch)
  case Nil
  then show ?case by (simp add: piecesFrom_refl)
next
  case (Cons x xs)
  obtain g' ch' where s: "settlePiece x (g, ch) = (g', ch')" by (cases "settlePiece x (g, ch)")
  have "piecesFrom g g'" using piecesFrom_settlePiece[of g x ch] s by simp
  moreover have "piecesFrom g' (fst (fold settlePiece xs (g', ch')))" by (rule Cons.IH)
  ultimately show ?case using s piecesFrom_trans by simp
qed

lemma piecesFrom_settleLoop: "piecesFrom g (settleLoop g)"
proof (induction g rule: settleLoop.induct)
  case (1 g)
  obtain g' changed where gp: "gravityPass g = (g', changed)" by (cases "gravityPass g")
  have f1: "piecesFrom g g'"
    using piecesFrom_fold[of g "sortPositions g (occupiedPositions g)" False] gp
    by (simp add: gravityPass_def)
  show ?case
  proof (cases changed)
    case True
    have "piecesFrom g' (settleLoop g')" using 1[OF gp[symmetric] True] .
    then have "piecesFrom g (settleLoop g')" using f1 piecesFrom_trans by blast
    moreover have "settleLoop g = settleLoop g'"
      by (subst settleLoop.simps) (simp add: gp True)
    ultimately show ?thesis by simp
  next
    case False
    have "settleLoop g = g'" by (subst settleLoop.simps) (simp add: gp False)
    then show ?thesis using f1 by simp
  qed
qed

lemma piecesFrom_wellFormed:
  assumes "piecesFrom g g'" and "wellFormed g"
  shows "wellFormed g'"
proof -
  have sf: "sameFrame g g'" and src: "\<And>cell p. board g' cell = Some p \<Longrightarrow> \<exists>cell'. board g cell' = Some p"
    using assms(1) by (auto simp: piecesFrom_def)
  have "players g' = players g" "currentPlayerIndex g' = currentPlayerIndex g"
    using sameFrame_fields[OF sf] by simp_all
  then show ?thesis
    using assms(2) src unfolding wellFormed_def by metis
qed

lemma wellFormed_applyGravity: "wellFormed g \<Longrightarrow> wellFormed (applyGravity g)"
  using piecesFrom_wellFormed[OF piecesFrom_settleLoop] by (simp add: applyGravity_def)

lemma wellFormed_reset: "players g \<noteq> [] \<Longrightarrow> wellFormed (reset g)"
  by (simp add: wellFormed_def reset_def)

lemma wellFormed_fields:
  assumes "wellFormed g" and "players g' = players g" and "board g' = board g"
    and "currentPlayerIndex g' = currentPlayerIndex g"
  shows "wellFormed g'"
  using assms by (simp add: wellFormed_def)

lemma wellFormed_rotate: "wellFormed g \<Longrightarrow> wellFormed (rotateGravityIfNeeded g x)"
proof -
  assume w: "wellFormed g"
  show ?thesis
  proof (cases "gravityRotation g")
    case None
    then show ?thesis using w by (simp add: rotateGravityIfNeeded_def)
  next
    case (Some rot)
    let ?g1 = "g\<lparr>turnCount := turnCount g + 1\<rparr>"
    have w1: "wellFormed ?g1" by (rule wellFormed_fields[OF w]) simp_all
    have w2: "\<And>d. wellFormed (applyGravity (?g1\<lparr>gravityDirection := d\<rparr>))"
      by (rule wellFormed_applyGravity, rule wellFormed_fields[OF w]) simp_all
    show ?thesis
      using w w1 w2 Some by (simp add: rotateGravityIfNeeded_def Let_def)
  qed
qed

lemma wellFormed_makeMove: "wellFormed g \<Longrightarrow> wellFormed (snd (makeMove g row col x))"
proof -
  assume w: "wellFormed g"
  let ?g1 = "g\<lparr>board := (board g)((row, col) := Some (currentPlayerIndex g))\<rparr>"
  let ?g2 = "?g1\<lparr>currentPlayerIndex := (currentPlayerIndex ?g1 + 1) mod length (players ?g1)\<rparr>"
  have w1: "wellFormed ?g1" using w by (simp add: wellFormed_def)
  have w2: "wellFormed ?g2" using w by (simp add: wellFormed_def)
  show ?thesis
  proof (cases "isValidMove g row col")
    case False
    then show ?thesis using w by (simp add: makeMove_def)
  next
    case True
    show ?thesis
    proof (cases "checkWin ?g1")
      case (Some r)
      have "wellFormed (?g1\<lparr>gameOver := True, winner := Some (resultWinner r),
                             winningCells := resultCells r\<rparr>)"
        by (rule wellFormed_fields[OF w1]) simp_all
      then show ?thesis using True Some by (simp add: makeMove_def Let_def)
    next
      case None
      show ?thesis
      proof (cases "isBoardFull ?g1")
        case True
        have "wellFormed (?g1\<lparr>gameOver := True, winner := None\<rparr>)"
          by (rule wellFormed_fields[OF w1]) simp_all
        then show ?thesis using \<open>isValidMove g row col\<close> None True
          by (simp add: makeMove_def Let_def)
      next
        case False
        then show ?thesis
          using \<open>isValidMove g row col\<close> None wellFormed_rotate[OF w2, of x]
          by (simp add: makeMove_def Let_def)
      qed
    qed
  qed
qed

lemma wellFormed_playMoves: "wellFormed g \<Longrightarrow> wellFormed (playMoves g ms)"
  by (induction g ms rule: playMoves.induct) (simp_all add: wellFormed_makeMove)

section \<open>Rejected moves\<close>

text \<open>
  Claim C2. For every game and all coordinates, \<^verbatim>\<open>makeMove(row, col)\<close> returns false and
  leaves the whole game state as it was exactly when the game is over, or the
  coordinates are outside the grid, or the cell is occupied, or gravity is enabled and
  the cell is not its own gravity target. \<^const>\<open>makeMove\<close> is a total function that
  yields the pair \<open>(False, g)\<close> on this path, and the path reads the board only behind the
  bounds checks, so nothing is thrown there.
\<close>

theorem makeMove_rejects_iff:
  "(fst (makeMove g row col randomDirection) = False \<and> snd (makeMove g row col randomDirection) = g)
   \<longleftrightarrow>
   (gameOver g \<or> \<not> inBounds g row col \<or> (inBounds g row col \<and> board g (row, col) \<noteq> None) \<or>
    (gravity g \<and> getGravityTarget g row col \<noteq> (row, col)))"
proof -
  have valid: "isValidMove g row col \<longleftrightarrow>
      \<not> (gameOver g \<or> \<not> inBounds g row col \<or> (inBounds g row col \<and> board g (row, col) \<noteq> None) \<or>
         (gravity g \<and> getGravityTarget g row col \<noteq> (row, col)))"
    by (auto simp: isValidMove_alt inBounds_def)
  have accepted: "isValidMove g row col \<Longrightarrow> fst (makeMove g row col randomDirection)"
    by (simp add: makeMove_def Let_def split: option.splits)
  have rejected: "\<not> isValidMove g row col \<Longrightarrow> makeMove g row col randomDirection = (False, g)"
    by (simp add: makeMove_def)
  show ?thesis
  proof (cases "isValidMove g row col")
    case True
    then show ?thesis using accepted valid by simp
  next
    case False
    then show ?thesis using rejected valid by simp
  qed
qed

text \<open>A move outside the 3 by 3 grid is rejected and changes nothing.\<close>

theorem makeMove_rejects_iff_witness:
  "fst (makeMove exampleGame 5 5 Down) = False \<and> snd (makeMove exampleGame 5 5 Down) = exampleGame \<and>
   inBounds exampleGame 5 5 = False"
  using makeMove_rejects_iff[of exampleGame 5 5 Down]
  by (simp add: inBounds_def exampleGame_def newGame_def reset_def)

section \<open>The winning-move probe\<close>

text \<open>On a board that holds indices of the players array only, no read of the array
  throws, and the checked win detection returns what \<^const>\<open>checkWin\<close> returns.\<close>

lemma countsTowardWinE_valid:
  assumes "a < length (players g)" and "b < length (players g)"
  shows "countsTowardWinE g a b = Inr (countsTowardWin g a b)"
  using assms by (simp add: countsTowardWinE_def countsTowardWin_def playerAt_def)

lemma extendRunE_valid:
  assumes "p < length (players g)"
    and "\<And>cell q. board g cell = Some q \<Longrightarrow> q < length (players g)"
  shows "extendRunE g p row col d is = Inr (extendRun g p row col d is)"
proof (induction "is")
  case Nil
  then show ?case by simp
next
  case (Cons i rest)
  let ?cell = "(row + fst d * i, col + snd d * i)"
  show ?case
  proof (cases "board g ?cell")
    case None
    then show ?thesis by (simp add: Let_def)
  next
    case (Some q)
    have "countsTowardWinE g p q = Inr (countsTowardWin g p q)"
      using countsTowardWinE_valid[OF assms(1) assms(2)[OF Some]] .
    then show ?thesis using Some Cons.IH by (simp add: Let_def)
  qed
qed

lemma checkWinAtE_valid:
  assumes "\<And>cell q. board g cell = Some q \<Longrightarrow> q < length (players g)"
  shows "checkWinAtE g start = Inr (checkWinAt g start)"
proof -
  obtain row col d where st: "start = (row, col, d)" by (cases start)
  show ?thesis
  proof (cases "board g (row, col)")
    case None
    then show ?thesis by (simp add: st checkWinAtE_def checkWinAt_def)
  next
    case (Some p)
    have p: "p < length (players g)" using assms[OF Some] .
    have run: "extendRunE g p row col d [1..winLength g - 1] =
               Inr (extendRun g p row col d [1..winLength g - 1])"
      using extendRunE_valid[OF p assms] .
    show ?thesis
      using Some p run by (simp add: st checkWinAtE_def checkWinAt_def playerAt_def Let_def)
  qed
qed

lemma firstResultE_valid:
  "(\<And>x. x \<in> set xs \<Longrightarrow> f x = Inr (f' x)) \<Longrightarrow> firstResultE f xs = Inr (firstResult f' xs)"
proof (induction xs)
  case Nil
  then show ?case by simp
next
  case (Cons x xs)
  have fx: "f x = Inr (f' x)" using Cons.prems[of x] by simp
  have rest: "firstResultE f xs = Inr (firstResult f' xs)" using Cons by simp
  show ?case using fx rest by (cases "f' x") simp_all
qed

lemma checkWinE_valid:
  assumes "\<And>cell q. board g cell = Some q \<Longrightarrow> q < length (players g)"
  shows "checkWinE g = Inr (checkWin g)"
  unfolding checkWinE_def checkWin_def
  by (rule firstResultE_valid) (rule checkWinAtE_valid[OF assms])

lemma wellFormed_placed:
  assumes "wellFormed g" and "p < length (players g)"
  shows "wellFormed (placed g cell p)"
  using assms by (simp add: wellFormed_def placed_def)

text \<open>
  Claim C9. For every game whose board holds indices of its players only (as every game
  played from a reset does), every empty cell inside the grid and every index of a
  player, \<^verbatim>\<open>checkWinningMove\<close> returns (it does not throw) the result of the win check
  on the board with the piece placed, and it leaves the game exactly as it found it:
  the board is the same after the piece is placed, the win check has run and the piece
  is removed, and no other field is touched.
\<close>

theorem checkWinningMove_restores:
  assumes "wellFormed g" and "playerIndex < length (players g)"
    and "inBounds g row col" and "board g (row, col) = None"
  shows "snd (checkWinningMove g row col playerIndex) = g \<and>
         fst (checkWinningMove g row col playerIndex) =
           Inr (checkWin (placed g (row, col) playerIndex))"
proof -
  let ?g1 = "placed g (row, col) playerIndex"
  have w1: "wellFormed ?g1" using wellFormed_placed[OF assms(1,2)] .
  have valid: "\<And>cell q. board ?g1 cell = Some q \<Longrightarrow> q < length (players ?g1)"
    using w1 unfolding wellFormed_def by blast
  have check: "checkWinE ?g1 = Inr (checkWin ?g1)" using checkWinE_valid[OF valid] .
  have undo: "?g1\<lparr>board := (board ?g1)((row, col) := None)\<rparr> = g"
    using assms(4) by (simp add: placed_def fun_eq_iff)
  have "checkWinningMove g row col playerIndex =
        (Inr (checkWin ?g1), ?g1\<lparr>board := (board ?g1)((row, col) := None)\<rparr>)"
    using check by (simp add: checkWinningMove_def placed_def Let_def)
  then show ?thesis using undo by simp
qed

text \<open>After the first move of the 3 by 3 game, a probe for player 1 at the cell next to
  the piece returns and leaves the game as it was.\<close>

theorem checkWinningMove_restores_witness:
  "wellFormed probeGame \<and> 1 < length (players probeGame) \<and>
   inBounds probeGame 0 1 \<and> board probeGame (0, 1) = None \<and>
   snd (checkWinningMove probeGame 0 1 1) = probeGame"
proof -
  have "wellFormed exampleGame"
    by (simp add: exampleGame_def newGame_def wellFormed_def reset_def)
  then have a: "wellFormed probeGame"
    unfolding probeGame_def by (rule wellFormed_playMoves)
  have b: "1 < length (players probeGame)" by code_simp
  have c: "inBounds probeGame 0 1" by code_simp
  have d: "board probeGame (0, 1) = None" by code_simp
  show ?thesis using a b c d checkWinningMove_restores[OF a b c d] by simp
qed

text \<open>With an index outside the players array the win check throws on the read of
  \<^verbatim>\<open>this.players[5].team\<close>, and the probed cell keeps the piece.\<close>

lemma checkWinningMove_throws_example:
  "fst (checkWinningMove probeGame 0 1 5) = Inl TypeError \<and>
   board (snd (checkWinningMove probeGame 0 1 5)) (0, 1) = Some 5"
  by code_simp

section \<open>Legal placements\<close>

lemma gravityFall_fixed:
  "gravityFall g row col = (row, col) \<longleftrightarrow>
     (\<not> inBounds g (row + fst (gravityDelta (gravityDirection g)))
                    (col + snd (gravityDelta (gravityDirection g))) \<or>
      board g (row + fst (gravityDelta (gravityDirection g)),
               col + snd (gravityDelta (gravityDirection g))) \<noteq> None)"
proof -
  let ?nr = "row + fst (gravityDelta (gravityDirection g))"
  let ?nc = "col + snd (gravityDelta (gravityDirection g))"
  show ?thesis
  proof (cases "\<not> inBounds g ?nr ?nc \<or> board g (?nr, ?nc) \<noteq> None")
    case True
    then have "gravityFall g row col = (row, col)"
      by (subst gravityFall.simps) (auto simp: Let_def inBounds_def)
    then show ?thesis using True by simp
  next
    case False
    then have eq: "gravityFall g row col = gravityFall g ?nr ?nc"
      by (subst gravityFall.simps) (auto simp: Let_def inBounds_def)
    have "edgeDistance g (?nr, ?nc) < edgeDistance g (row, col)"
      using False by (auto simp: inBounds_def split: direction.splits)
    then have "edgeDistance g (gravityFall g row col) < edgeDistance g (row, col)"
      using gravityFall_le[of g ?nr ?nc] eq by simp
    then have "gravityFall g row col \<noteq> (row, col)" by auto
    then show ?thesis using False by simp
  qed
qed

text \<open>
  Claim C3. In a game that is not over, for every cell inside the grid: with gravity
  enabled the cell is accepted by \<^verbatim>\<open>isValidMove\<close> exactly when it is empty and the next
  cell in the gravity direction is off the grid or occupied; with gravity disabled exactly
  when it is empty. The cell is listed by \<^verbatim>\<open>getValidMoves\<close> exactly when
  \<^verbatim>\<open>isValidMove\<close> accepts it.
\<close>

theorem validMove_iff:
  assumes "\<not> gameOver g" and "inBounds g row col"
  shows "(isValidMove g row col \<longleftrightarrow>
           (if gravity g
            then board g (row, col) = None \<and>
                 (\<not> inBounds g (row + fst (gravityDelta (gravityDirection g)))
                                (col + snd (gravityDelta (gravityDirection g))) \<or>
                  board g (row + fst (gravityDelta (gravityDirection g)),
                           col + snd (gravityDelta (gravityDirection g))) \<noteq> None)
            else board g (row, col) = None)) \<and>
         ((row, col) \<in> set (getValidMoves g) \<longleftrightarrow> isValidMove g row col)"
proof -
  have rng: "row \<in> set [0..height g - 1]" "col \<in> set [0..width g - 1]"
    using assms(2) by (auto simp: inBounds_def)
  have v: "isValidMove g row col \<longleftrightarrow>
           (if gravity g
            then board g (row, col) = None \<and>
                 (\<not> inBounds g (row + fst (gravityDelta (gravityDirection g)))
                                (col + snd (gravityDelta (gravityDirection g))) \<or>
                  board g (row + fst (gravityDelta (gravityDirection g)),
                           col + snd (gravityDelta (gravityDirection g))) \<noteq> None)
            else board g (row, col) = None)"
    using assms gravityFall_fixed[of g row col]
    by (auto simp: isValidMove_alt inBounds_def getGravityTarget_def)
  have m: "(row, col) \<in> set (getValidMoves g) \<longleftrightarrow>
           (if gravity g
            then board g (row, col) = None \<and>
                 (\<not> inBounds g (row + fst (gravityDelta (gravityDirection g)))
                                (col + snd (gravityDelta (gravityDirection g))) \<or>
                  board g (row + fst (gravityDelta (gravityDirection g)),
                           col + snd (gravityDelta (gravityDirection g))) \<noteq> None)
            else board g (row, col) = None)"
    using rng by (auto simp: getValidMoves_def Let_def inBounds_def)
  show ?thesis using v m by simp
qed

text \<open>In the fresh 4 by 4 game with gravity pulling down, the bottom-left cell is legal
  and listed.\<close>

theorem validMove_iff_witness:
  "\<not> gameOver rotatingGame \<and> inBounds rotatingGame 3 0 \<and>
   isValidMove rotatingGame 3 0 \<and> (3, 0) \<in> set (getValidMoves rotatingGame)"
proof -
  have a: "\<not> gameOver rotatingGame" by code_simp
  have b: "inBounds rotatingGame 3 0" by code_simp
  have c: "isValidMove rotatingGame 3 0" by code_simp
  show ?thesis using a b c validMove_iff[OF a b] by simp
qed

section \<open>The turn counter\<close>

lemma rotate_turnCount:
  "turnCount (rotateGravityIfNeeded g x) = (if rotationActive g then turnCount g + 1 else turnCount g)"
  by (simp add: rotateGravityIfNeeded_def rotationActive_def Let_def
      sameFrame_fields[OF applyGravity_frame] split: option.splits)

lemma rotate_config:
  "gravityRotation (rotateGravityIfNeeded g x) = gravityRotation g"
  "gameOver (rotateGravityIfNeeded g x) = gameOver g"
  by (simp_all add: rotateGravityIfNeeded_def Let_def
      sameFrame_fields[OF applyGravity_frame] split: option.splits)

lemma rotate_clockwise:
  "gravityRotation g = Some \<lparr>turns = 1, mode = Clockwise\<rparr> \<Longrightarrow>
   gravityDirection (rotateGravityIfNeeded g x) = clockwiseNext (gravityDirection g)"
  by (cases "gravityDirection g")
     (simp_all add: rotateGravityIfNeeded_def Let_def directions_def
      sameFrame_fields[OF applyGravity_frame])

text \<open>The three ways a call of makeMove ends.\<close>

lemma makeMove_cases:
  "makeMove g row col x = (False, g) \<or>
   (fst (makeMove g row col x) \<and> gameOver (snd (makeMove g row col x)) \<and>
    turnCount (snd (makeMove g row col x)) = turnCount g \<and>
    gravityRotation (snd (makeMove g row col x)) = gravityRotation g \<and>
    gravityDirection (snd (makeMove g row col x)) = gravityDirection g) \<or>
   (\<not> gameOver g \<and>
    (\<exists>g2. makeMove g row col x = (True, rotateGravityIfNeeded g2 x) \<and>
          turnCount g2 = turnCount g \<and> gravityRotation g2 = gravityRotation g \<and>
          gravityDirection g2 = gravityDirection g \<and> gameOver g2 = gameOver g))"
proof (cases "isValidMove g row col")
  case False
  then show ?thesis by (simp add: makeMove_def)
next
  case True
  then have ng: "\<not> gameOver g" by (auto simp: isValidMove_alt split: if_splits)
  let ?g1 = "g\<lparr>board := (board g)((row, col) := Some (currentPlayerIndex g))\<rparr>"
  show ?thesis
  proof (cases "checkWin ?g1")
    case (Some w)
    then show ?thesis using True by (simp add: makeMove_def Let_def)
  next
    case None
    show ?thesis
    proof (cases "isBoardFull ?g1")
      case True
      then show ?thesis using None \<open>isValidMove g row col\<close> by (simp add: makeMove_def Let_def)
    next
      case False
      let ?g2 = "?g1\<lparr>currentPlayerIndex := (currentPlayerIndex ?g1 + 1) mod length (players ?g1)\<rparr>"
      have "makeMove g row col x = (True, rotateGravityIfNeeded ?g2 x)"
        using None False \<open>isValidMove g row col\<close> by (simp add: makeMove_def Let_def)
      moreover have "turnCount ?g2 = turnCount g" "gravityRotation ?g2 = gravityRotation g"
        "gravityDirection ?g2 = gravityDirection g" "gameOver ?g2 = gameOver g" by simp_all
      ultimately show ?thesis using ng by blast
    qed
  qed
qed

lemma makeMove_gravityRotation:
  "gravityRotation (snd (makeMove g row col x)) = gravityRotation g"
  using makeMove_cases[of g row col x] by (auto simp: rotate_config)

lemma makeMove_turnCount:
  "turnCount (snd (makeMove g row col x)) =
     turnCount g + (if rotationActive g \<and> fst (makeMove g row col x) \<and>
                       \<not> gameOver (snd (makeMove g row col x)) then 1 else 0)"
  using makeMove_cases[of g row col x]
  by (auto simp: rotate_config rotate_turnCount rotationActive_def)

lemma playMoves_turnCount:
  "turnCount (playMoves g ms) = turnCount g + (if rotationActive g then advancingMoves g ms else 0)"
proof (induction g ms rule: playMoves.induct)
  case (1 g)
  then show ?case by simp
next
  case (2 g row col x rest)
  have ra: "rotationActive (snd (makeMove g row col x)) = rotationActive g"
    by (simp add: rotationActive_def makeMove_gravityRotation)
  show ?case using 2 ra makeMove_turnCount[of g row col x] by simp
qed

text \<open>
  Claim C1, as stated: after a reset, \<^verbatim>\<open>turnCount\<close> equals the number of successful
  \<^verbatim>\<open>makeMove\<close> calls, whatever the configuration. It fails in a game without gravity
  rotation: the first move succeeds and \<^verbatim>\<open>turnCount\<close> is still 0, since
  \<^verbatim>\<open>rotateGravityIfNeeded\<close> returns before it increments the counter.
\<close>

theorem turnCount_counterexample:
  "successfulMoves (reset exampleGame) [(0, 0, Down)] = 1 \<and>
   turnCount (playMoves (reset exampleGame) [(0, 0, Down)]) = 0"
proof -
  have a: "successfulMoves (reset exampleGame) [(0, 0, Down)] = 1" by code_simp
  have b: "turnCount (playMoves (reset exampleGame) [(0, 0, Down)]) = 0" by code_simp
  show ?thesis using a b by simp
qed

text \<open>
  Claim C1, amended. For every sequence of \<^verbatim>\<open>makeMove\<close> calls after a reset:
  when a gravity rotation with a mode other than \<^verbatim>\<open>'none'\<close> is configured,
  \<^verbatim>\<open>turnCount\<close> equals the number of successful calls that left the game running (a
  winning or drawing move is not counted); when no rotation is configured, or its mode is
  \<^verbatim>\<open>'none'\<close>, \<^verbatim>\<open>turnCount\<close> stays 0.
\<close>

theorem turnCount_counts_advancing_moves:
  "turnCount (playMoves (reset g) ms) =
     (if rotationActive g then advancingMoves (reset g) ms else 0)"
proof -
  have "rotationActive (reset g) = rotationActive g" "turnCount (reset g) = 0"
    by (simp_all add: rotationActive_def reset_def)
  then show ?thesis using playMoves_turnCount[of "reset g" ms] by simp
qed

text \<open>Two moves in the rotating game, both successful, neither ending it.\<close>

theorem turnCount_counts_advancing_moves_witness:
  "rotationActive rotatingGame \<and>
   advancingMoves (reset rotatingGame) [(3, 0, Down), (0, 3, Down)] = 2 \<and>
   turnCount (playMoves (reset rotatingGame) [(3, 0, Down), (0, 3, Down)]) = 2"
proof -
  have a: "rotationActive rotatingGame" by code_simp
  have b: "advancingMoves (reset rotatingGame) [(3, 0, Down), (0, 3, Down)] = 2" by code_simp
  show ?thesis
    using a b turnCount_counts_advancing_moves[of rotatingGame "[(3, 0, Down), (0, 3, Down)]"]
    by simp
qed

section \<open>Clockwise rotation\<close>

lemma makeMove_clockwise:
  assumes "gravityRotation g = Some \<lparr>turns = 1, mode = Clockwise\<rparr>"
    and "fst (makeMove g row col x)" and "\<not> gameOver (snd (makeMove g row col x))"
  shows "gravityDirection (snd (makeMove g row col x)) = clockwiseNext (gravityDirection g)"
  using makeMove_cases[of g row col x] assms
  by (auto simp: rotate_clockwise)

lemma directionIndex_clockwiseNext:
  "directionIndex (clockwiseNext d) = (directionIndex d + 1) mod 4"
  by (cases d) simp_all

lemma directions_directionIndex: "directions ! directionIndex d = d"
  by (cases d) (simp_all add: directions_def)

lemma directionIndex_less: "directionIndex d < 4"
  by (cases d) simp_all

lemma playMoves_clockwise:
  "gravityRotation g = Some \<lparr>turns = 1, mode = Clockwise\<rparr> \<Longrightarrow> allAdvancing g ms \<Longrightarrow>
   directionIndex (gravityDirection (playMoves g ms)) =
     (directionIndex (gravityDirection g) + length ms) mod 4"
proof (induction g ms rule: playMoves.induct)
  case (1 g)
  then show ?case using directionIndex_less[of "gravityDirection g"] by simp
next
  case (2 g row col x rest)
  let ?g' = "snd (makeMove g row col x)"
  have rot': "gravityRotation ?g' = Some \<lparr>turns = 1, mode = Clockwise\<rparr>"
    using 2(2) by (simp add: makeMove_gravityRotation)
  have adv: "fst (makeMove g row col x)" "\<not> gameOver ?g'" "allAdvancing ?g' rest"
    using 2(3) by simp_all
  have step: "directionIndex (gravityDirection ?g') = (directionIndex (gravityDirection g) + 1) mod 4"
    using makeMove_clockwise[OF 2(2) adv(1) adv(2)] directionIndex_clockwiseNext by simp
  have "directionIndex (gravityDirection (playMoves ?g' rest)) =
        (directionIndex (gravityDirection ?g') + length rest) mod 4"
    using 2(1)[OF rot' adv(3)] .
  also have "\<dots> = (directionIndex (gravityDirection g) + length ((row, col, x) # rest)) mod 4"
    unfolding step by (simp add: mod_simps)
  finally show ?case by simp
qed

text \<open>
  Claim C7. In a game configured with the rotation \<^verbatim>\<open>{mode: 'clockwise', turns: 1}\<close>
  whose gravity points down, every successful move that leaves the game running turns
  the gravity one step along down, right, up, left: after \<open>n\<close> such moves the direction
  is entry \<open>n mod 4\<close> of that cycle, so after four it is down again.
\<close>

theorem clockwise_rotation_cycle:
  assumes "gravityRotation g = Some \<lparr>turns = 1, mode = Clockwise\<rparr>"
    and "gravityDirection g = Down"
    and "allAdvancing g ms"
  shows "gravityDirection (playMoves g ms) = [Down, Right, Up, Left] ! (length ms mod 4)"
proof -
  have "directionIndex (gravityDirection (playMoves g ms)) = length ms mod 4"
    using playMoves_clockwise[OF assms(1) assms(3)] assms(2) by simp
  then show ?thesis
    using directions_directionIndex[of "gravityDirection (playMoves g ms)"]
    by (simp add: directions_def)
qed

text \<open>Four moves in the rotating game bring the gravity back to down.\<close>

theorem clockwise_rotation_cycle_witness:
  "gravityRotation rotatingGame = Some \<lparr>turns = 1, mode = Clockwise\<rparr> \<and>
   gravityDirection rotatingGame = Down \<and>
   allAdvancing rotatingGame [(3, 0, Down), (0, 3, Down), (0, 0, Down), (3, 0, Down)] \<and>
   gravityDirection
     (playMoves rotatingGame [(3, 0, Down), (0, 3, Down), (0, 0, Down), (3, 0, Down)]) = Down"
proof -
  have a: "gravityRotation rotatingGame = Some \<lparr>turns = 1, mode = Clockwise\<rparr>"
    by (simp add: rotatingGame_def newGame_def reset_def)
  have b: "gravityDirection rotatingGame = Down"
    by (simp add: rotatingGame_def newGame_def reset_def)
  have c: "allAdvancing rotatingGame [(3, 0, Down), (0, 3, Down), (0, 0, Down), (3, 0, Down)]"
    by code_simp
  show ?thesis using a b c clockwise_rotation_cycle[OF a b c] by simp
qed

section \<open>Gravity settles once\<close>

lemma settlePiece_either:
  "settlePiece p (g, ch) = (g, ch) \<or> snd (settlePiece p (g, ch))"
proof -
  obtain row col where p: "p = (row, col)" by (cases p)
  show ?thesis
  proof (cases "board g (row, col) = None \<or> getGravityTarget g row col = (row, col)")
    case True
    then show ?thesis using settlePiece_unmoved[of g row col ch] p by simp
  next
    case False
    then show ?thesis using settlePiece_moved[of g row col ch] p by simp
  qed
qed

lemma fold_settlePiece_changed: "snd (fold settlePiece ps (g, True))"
proof (induction ps arbitrary: g)
  case Nil
  then show ?case by simp
next
  case (Cons p ps)
  obtain g' where "settlePiece p (g, True) = (g', True)"
    using settlePiece_either[of p g True] by (cases "settlePiece p (g, True)") auto
  then show ?case using Cons.IH[of g'] by simp
qed

lemma fold_settlePiece_unchanged:
  "\<not> snd (fold settlePiece ps (g, False)) \<Longrightarrow> fst (fold settlePiece ps (g, False)) = g"
proof (induction ps arbitrary: g)
  case Nil
  then show ?case by simp
next
  case (Cons p ps)
  from settlePiece_either[of p g False]
  show ?case
  proof
    assume "settlePiece p (g, False) = (g, False)"
    then show ?thesis using Cons by simp
  next
    assume "snd (settlePiece p (g, False))"
    then obtain g' where "settlePiece p (g, False) = (g', True)"
      by (cases "settlePiece p (g, False)") auto
    then have "snd (fold settlePiece (p # ps) (g, False))"
      using fold_settlePiece_changed[of ps g'] by simp
    then show ?thesis using Cons.prems by simp
  qed
qed

lemma gravityPass_unchanged: "\<not> snd (gravityPass g) \<Longrightarrow> fst (gravityPass g) = g"
  unfolding gravityPass_def by (rule fold_settlePiece_unchanged)

lemma gravityPass_settleLoop: "gravityPass (settleLoop g) = (settleLoop g, False)"
proof (induction g rule: settleLoop.induct)
  case (1 g)
  obtain g' changed where gp: "gravityPass g = (g', changed)" by (cases "gravityPass g")
  show ?case
  proof (cases changed)
    case True
    have "settleLoop g = settleLoop g'"
      by (subst settleLoop.simps) (simp add: gp True)
    then show ?thesis using 1[OF gp[symmetric] True] by simp
  next
    case False
    have sl: "settleLoop g = g'" by (subst settleLoop.simps) (simp add: gp False)
    have "g' = g" using gravityPass_unchanged[of g] gp False by simp
    then show ?thesis using sl gp False by simp
  qed
qed

lemma settleLoop_idem: "settleLoop (settleLoop g) = settleLoop g"
  by (subst settleLoop.simps) (simp add: gravityPass_settleLoop)

text \<open>
  Claim C4. For every game (any board, any gravity direction, gravity enabled or not),
  running \<^verbatim>\<open>applyGravity\<close> a second time right after the first gives the same game as
  running it once; and with gravity disabled \<^verbatim>\<open>applyGravity\<close> changes nothing.
  \<^const>\<open>applyGravity\<close> is a total function: its loop terminates on every game.
\<close>

theorem applyGravity_idempotent:
  "applyGravity (applyGravity g) = applyGravity g \<and> (\<not> gravity g \<longrightarrow> applyGravity g = g)"
proof (cases "gravity g")
  case True
  have "gravity (settleLoop g)" using sameFrame_fields(4)[OF settleLoop_frame[of g]] True by simp
  then show ?thesis using True by (simp add: applyGravity_def settleLoop_idem)
next
  case False
  then show ?thesis by (simp add: applyGravity_def)
qed

text \<open>The hanging piece of player 0 drops to the bottom row, and a second run changes
  nothing; without gravity nothing moves.\<close>

theorem applyGravity_idempotent_witness:
  "board (applyGravity floatingGame) (3, 0) = Some 0 \<and>
   applyGravity (applyGravity floatingGame) = applyGravity floatingGame \<and>
   gravity exampleGame = False \<and> applyGravity exampleGame = exampleGame"
proof -
  have a: "board (applyGravity floatingGame) (3, 0) = Some 0" by code_simp
  have b: "gravity exampleGame = False" by code_simp
  show ?thesis
    using a b applyGravity_idempotent[of floatingGame] applyGravity_idempotent[of exampleGame]
    by simp
qed

section \<open>Gravity keeps the pieces\<close>

lemma allCells_product:
  "allCells g = List.product [0..height g - 1] [0..width g - 1]"
proof -
  have inner: "\<And>row (ys :: int list). concat (map (\<lambda>col. [(row, col)]) ys) = map (Pair row) ys"
    by (induct_tac ys) simp_all
  have "\<And>(xs :: int list) (ys :: int list).
          concat (map (\<lambda>row. map (Pair row) ys) xs) = List.product xs ys"
    by (induct_tac xs) simp_all
  then show ?thesis by (simp add: allCells_def inner)
qed

lemma distinct_allCells: "distinct (allCells g)"
  by (simp add: allCells_product distinct_product)

lemma set_allCells: "set (allCells g) = grid g"
  by (auto simp: allCells_product grid_def)

lemma countPieces_card: "countPieces g p = card (piecesOf g p)"
proof -
  have "{x. board g x = Some p} \<inter> set (allCells g) = piecesOf g p"
    by (auto simp: set_allCells piecesOf_def)
  then show ?thesis
    unfolding countPieces_def using distinct_length_filter[OF distinct_allCells, of "\<lambda>cell. board g cell = Some p" g]
    by simp
qed

lemma finite_piecesOf: "finite (piecesOf g p)"
  by (simp add: piecesOf_def grid_def)

lemma grid_movePiece: "grid (g\<lparr>board := b\<rparr>) = grid g"
  by (simp add: grid_def)

lemma countPieces_movePiece:
  assumes "src \<in> grid g" "tgt \<in> grid g" "board g src \<noteq> None" "board g tgt = None"
  shows "countPieces (movePiece g src tgt) p = countPieces g p"
proof (cases "board g src = Some p")
  case True
  have ne: "src \<noteq> tgt" using assms(3,4) by auto
  have "piecesOf (movePiece g src tgt) p = insert tgt (piecesOf g p - {src})"
    using assms True ne by (auto simp: piecesOf_def grid_movePiece movePiece_def)
  moreover have "src \<in> piecesOf g p" "tgt \<notin> piecesOf g p - {src}"
    using assms True by (auto simp: piecesOf_def)
  ultimately have "card (piecesOf (movePiece g src tgt) p) = card (piecesOf g p)"
    using finite_piecesOf[of g p] card.remove[OF finite_piecesOf, of src g p] by simp
  then show ?thesis by (simp add: countPieces_card)
next
  case False
  have "piecesOf (movePiece g src tgt) p = piecesOf g p"
    using assms False by (auto simp: piecesOf_def grid_movePiece movePiece_def)
  then show ?thesis by (simp add: countPieces_card)
qed

lemma fold_settlePiece_count:
  "(\<And>q. q \<in> set ps \<Longrightarrow> inBounds g (fst q) (snd q)) \<Longrightarrow>
   countPieces (fst (fold settlePiece ps (g, ch))) p = countPieces g p"
proof (induction ps arbitrary: g ch)
  case Nil
  then show ?case by simp
next
  case (Cons q ps)
  obtain row col where q: "q = (row, col)" by (cases q)
  have inb: "inBounds g row col" using Cons.prems[of q] q by simp
  from settlePiece_step[OF inb, of ch]
  show ?case
  proof
    assume un: "settlePiece (row, col) (g, ch) = (g, ch)"
    have "\<And>q. q \<in> set ps \<Longrightarrow> inBounds g (fst q) (snd q)" using Cons.prems by simp
    from Cons.IH[OF this, of ch] show ?thesis using un q by simp
  next
    assume "\<exists>tgt. settlePiece (row, col) (g, ch) = (movePiece g (row, col) tgt, True) \<and>
                tgt \<noteq> (row, col) \<and> (row, col) \<in> grid g \<and> tgt \<in> grid g \<and>
                board g (row, col) \<noteq> None \<and> board g tgt = None \<and>
                edgeDistance g tgt < edgeDistance g (row, col)"
    then obtain tgt where mv: "settlePiece (row, col) (g, ch) = (movePiece g (row, col) tgt, True)"
      and facts: "(row, col) \<in> grid g" "tgt \<in> grid g" "board g (row, col) \<noteq> None"
        "board g tgt = None"
      by blast
    let ?m = "movePiece g (row, col) tgt"
    have "\<And>q. q \<in> set ps \<Longrightarrow> inBounds ?m (fst q) (snd q)"
      using Cons.prems sameFrame_inBounds[OF sameFrame_movePiece] by simp
    from Cons.IH[OF this, of True]
    have "countPieces (fst (fold settlePiece ps (?m, True))) p = countPieces ?m p" .
    then show ?thesis
      using mv q countPieces_movePiece[OF facts, of p] by simp
  qed
qed

lemma gravityPass_count: "countPieces (fst (gravityPass g)) p = countPieces g p"
proof -
  have inb: "\<And>q. q \<in> set (sortPositions g (occupiedPositions g)) \<Longrightarrow> inBounds g (fst q) (snd q)"
    by (auto simp: set_sortPositions set_occupiedPositions occupied_def grid_inBounds)
  show ?thesis unfolding gravityPass_def by (rule fold_settlePiece_count[OF inb])
qed

lemma settleLoop_count: "countPieces (settleLoop g) p = countPieces g p"
proof (induction g rule: settleLoop.induct)
  case (1 g)
  obtain g' changed where gp: "gravityPass g = (g', changed)" by (cases "gravityPass g")
  have c1: "countPieces g' p = countPieces g p" using gravityPass_count[of g p] gp by simp
  show ?case
  proof (cases changed)
    case True
    have "settleLoop g = settleLoop g'"
      by (subst settleLoop.simps) (simp add: gp True)
    then show ?thesis using 1[OF gp[symmetric] True] c1 by simp
  next
    case False
    have "settleLoop g = g'" by (subst settleLoop.simps) (simp add: gp False)
    then show ?thesis using c1 by simp
  qed
qed

text \<open>
  Claim C10. For every game and every player index, \<^verbatim>\<open>applyGravity\<close> leaves the number
  of cells that hold that index as it was: pieces are moved, never created, duplicated
  or destroyed.
\<close>

theorem applyGravity_preserves_pieces:
  "countPieces (applyGravity g) playerIndex = countPieces g playerIndex"
  by (simp add: applyGravity_def settleLoop_count)

theorem applyGravity_preserves_pieces_witness:
  "countPieces floatingGame 1 = 1 \<and> board (applyGravity floatingGame) (3, 2) = Some 1 \<and>
   countPieces (applyGravity floatingGame) 1 = 1"
proof -
  have a: "countPieces floatingGame 1 = 1" by code_simp
  have b: "board (applyGravity floatingGame) (3, 2) = Some 1" by code_simp
  show ?thesis using a b applyGravity_preserves_pieces[of floatingGame 1] by simp
qed

section \<open>Win detection finds exactly the runs\<close>

lemma extendRun_length_le: "length (extendRun g p row col d is) \<le> length is"
  by (induction "is") (auto simp: Let_def split: option.splits)

lemma extendRun_full:
  "length (extendRun g p row col d is) = length is \<longleftrightarrow> (\<forall>i \<in> set is. cellContinues g p row col d i)"
proof (induction "is")
  case Nil
  then show ?case by simp
next
  case (Cons i rest)
  show ?case
  proof (cases "cellContinues g p row col d i")
    case True
    then have "extendRun g p row col d (i # rest) =
               (row + fst d * i, col + snd d * i) # extendRun g p row col d rest"
      by (auto simp: cellContinues_def inBounds_def Let_def split: option.splits)
    then show ?thesis using Cons True by simp
  next
    case False
    then have "extendRun g p row col d (i # rest) = []"
      by (auto simp: cellContinues_def inBounds_def Let_def split: option.splits)
    then show ?thesis using False by simp
  qed
qed

lemma checkWinAt_iff:
  assumes "inBounds g row col"
  shows "checkWinAt g (row, col, d) \<noteq> None \<longleftrightarrow> qualifyingRun g (winLength g) (row, col, d)"
proof (cases "board g (row, col)")
  case None
  then show ?thesis by (simp add: checkWinAt_def qualifyingRun_def)
next
  case (Some p)
  let ?is = "[1..winLength g - 1]"
  let ?run = "extendRun g p row col d ?is"
  have len: "int (length ?is) = (if 1 \<le> winLength g then winLength g - 1 else 0)" by simp
  have le: "length ?run \<le> length ?is" by (rule extendRun_length_le)
  have "checkWinAt g (row, col, d) \<noteq> None \<longleftrightarrow> winLength g \<le> int (length ?run) + 1"
    using Some by (simp add: checkWinAt_def Let_def)
  also have "\<dots> \<longleftrightarrow> length ?run = length ?is"
    using le len by (auto split: if_splits)
  also have "\<dots> \<longleftrightarrow> (\<forall>i \<in> set ?is. cellContinues g p row col d i)"
    by (rule extendRun_full)
  also have "\<dots> \<longleftrightarrow> qualifyingRun g (winLength g) (row, col, d)"
    using Some assms by (auto simp: qualifyingRun_def cellContinues_def)
  finally show ?thesis .
qed

lemma firstResult_None: "firstResult f xs = None \<longleftrightarrow> (\<forall>x \<in> set xs. f x = None)"
  by (induction xs) (auto split: option.splits)

lemma in_scanStarts:
  "(row, col, d) \<in> set (scanStarts g) \<longleftrightarrow> inBounds g row col \<and> d \<in> set winDirections"
proof -
  have "row \<in> {0..height g - 1} \<longleftrightarrow> 0 \<le> row \<and> row < height g"
    "col \<in> {0..width g - 1} \<longleftrightarrow> 0 \<le> col \<and> col < width g"
    by auto
  then show ?thesis
    by (simp add: scanStarts_def inBounds_def image_iff not_less not_le)
qed

lemma checkWin_iff:
  "checkWin g \<noteq> None \<longleftrightarrow> (\<exists>start \<in> set (scanStarts g). qualifyingRun g (winLength g) start)"
proof -
  have same: "\<And>start. start \<in> set (scanStarts g) \<Longrightarrow>
      checkWinAt g start \<noteq> None \<longleftrightarrow> qualifyingRun g (winLength g) start"
  proof -
    fix start assume m: "start \<in> set (scanStarts g)"
    obtain row col d where st: "start = (row, col, d)" by (cases start)
    have "inBounds g row col" using m st in_scanStarts by simp
    then show "checkWinAt g start \<noteq> None \<longleftrightarrow> qualifyingRun g (winLength g) start"
      unfolding st by (rule checkWinAt_iff)
  qed
  have "checkWin g \<noteq> None \<longleftrightarrow> (\<exists>start \<in> set (scanStarts g). checkWinAt g start \<noteq> None)"
    using firstResult_None[of "checkWinAt g" "scanStarts g"] by (auto simp: checkWin_def)
  also have "\<dots> \<longleftrightarrow> (\<exists>start \<in> set (scanStarts g). qualifyingRun g (winLength g) start)"
    using same by blast
  finally show ?thesis .
qed



section \<open>Team collaboration\<close>





lemma qualifyingRun_alt:
  "qualifyingRun g n (row, col, d) \<longleftrightarrow>
     inBounds g row col \<and>
     (\<exists>p. board g (row, col) = Some p \<and> (\<forall>i \<in> {1..<n}. cellContinues g p row col d i))"
  by (cases "board g (row, col)") (simp_all add: qualifyingRun_def cellContinues_def)

lemma cellContinues_alt:
  "cellContinues g p row col d i \<longleftrightarrow>
     inBounds g (row + fst d * i) (col + snd d * i) \<and>
     (\<exists>q. board g (row + fst d * i, col + snd d * i) = Some q \<and> countsTowardWin g p q)"
  by (cases "board g (row + fst d * i, col + snd d * i)") (simp_all add: cellContinues_def)







section \<open>The offensive strategy for a player without a team\<close>

text \<open>For a player without a team the chain loops of \<^verbatim>\<open>evaluateMove\<close> count exactly
  the player's own cells next to the move.\<close>

lemma chainCount_teamless:
  assumes "team (players g ! p) = None"
  shows "chainCount g move p d dir is = int (length (takeWhile (ownCell g p move d dir) is))"
proof (induction "is")
  case Nil
  then show ?case by simp
next
  case (Cons i rest)
  show ?case
  proof (cases "ownCell g p move d dir i")
    case True
    then show ?thesis using Cons assms
      by (simp add: ownCell_def inBounds_def Let_def)
  next
    case False
    then show ?thesis using assms
      by (auto simp: ownCell_def inBounds_def Let_def split: option.splits)
  qed
qed

lemma chainCount_bounds: "0 \<le> chainCount g move p d dir is \<and> chainCount g move p d dir is \<le> int (length is)"
  by (induction "is") (auto simp: Let_def split: option.splits)

lemma spaceCount_bounds: "0 \<le> spaceCount g move p d dir is \<and> spaceCount g move p d dir is \<le> int (length is)"
  by (induction "is") (auto simp: Let_def split: option.splits)

lemma evaluateDirections_1000:
  assumes "winLength g = 4"
  shows "acc < 1000 \<Longrightarrow>
         (evaluateDirections g move p ds acc = 1000 \<longleftrightarrow> (\<exists>d \<in> set ds. completes g move p d)) \<and>
         evaluateDirections g move p ds acc \<le> 1000"
proof (induction ds arbitrary: acc)
  case Nil
  then show ?case by simp
next
  case (Cons d ds)
  let ?chain = "chainCount g move p d (-1) [1..winLength g - 1] +
                chainCount g move p d 1 [1..winLength g - 1]"
  let ?spaces = "1 + spaceCount g move p d (-1) [1..winLength g - 1] +
                 spaceCount g move p d 1 [1..winLength g - 1]"
  show ?case
  proof (cases "completes g move p d")
    case True
    then have "evaluateDirections g move p (d # ds) acc = 1000"
      by (simp add: completes_def Let_def)
    then show ?thesis using True by simp
  next
    case False
    let ?acc' = "if ?spaces \<ge> winLength g then max acc (?chain * 10 + ?spaces) else acc"
    have step: "evaluateDirections g move p (d # ds) acc = evaluateDirections g move p ds ?acc'"
      using False by (simp add: completes_def Let_def)
    have len: "int (length [1..winLength g - 1]) = 3" using assms by simp
    have "?chain \<le> 2" using False assms by (simp add: completes_def)
    moreover have "?spaces \<le> 7"
      using spaceCount_bounds[of g move p d "-1" "[1..winLength g - 1]"]
        spaceCount_bounds[of g move p d 1 "[1..winLength g - 1]"] len by linarith
    ultimately have "?acc' < 1000" using Cons.prems by auto
    from Cons.IH[OF this] show ?thesis unfolding step using False by simp
  qed
qed

lemma evaluateMove_1000:
  assumes "winLength g = 4"
  shows "evaluateMove g move p = 1000 \<longleftrightarrow> (\<exists>d \<in> set winDirections. completes g move p d)"
    and "evaluateMove g move p \<le> 1000"
  using evaluateDirections_1000[OF assms, of 0 move p winDirections]
  by (simp_all add: evaluateMove_def)

lemma bestOffensive_kept:
  assumes "\<And>x. x \<in> set moves \<Longrightarrow> evaluateMove g x p \<le> 1000"
  shows "fst (bestOffensive g p moves (Some m, 1000)) = Some m"
  using assms
proof (induction moves)
  case Nil
  then show ?case by simp
next
  case (Cons x xs)
  have "\<not> evaluateMove g x p > 1000" using Cons.prems[of x] by simp
  then show ?case using Cons by (simp add: Let_def)
qed

lemma bestOffensive_unique:
  assumes "\<And>x. x \<in> set moves \<Longrightarrow> evaluateMove g x p \<le> 1000"
    and "\<And>x. x \<in> set moves \<Longrightarrow> evaluateMove g x p = 1000 \<Longrightarrow> x = m"
    and "m \<in> set moves" and "evaluateMove g m p = 1000" and "bestScore < 1000"
  shows "fst (bestOffensive g p moves (bestMove, bestScore)) = Some m"
  using assms
proof (induction moves arbitrary: bestMove bestScore)
  case Nil
  then show ?case by simp
next
  case (Cons x xs)
  show ?case
  proof (cases "x = m")
    case True
    have "bestOffensive g p (x # xs) (bestMove, bestScore) = bestOffensive g p xs (Some m, 1000)"
      using True Cons.prems(4,5) by (simp add: Let_def)
    then show ?thesis using bestOffensive_kept[of xs g p m] Cons.prems(1) by simp
  next
    case False
    then have lt: "evaluateMove g x p < 1000"
      using Cons.prems(1)[of x] Cons.prems(2)[of x] by fastforce
    have min: "m \<in> set xs" using Cons.prems(3) False by simp
    have ih: "\<And>bm bs. bs < 1000 \<Longrightarrow> fst (bestOffensive g p xs (bm, bs)) = Some m"
      using Cons.IH[OF _ _ min Cons.prems(4)] Cons.prems(1,2) by simp
    show ?thesis using ih lt Cons.prems(5) by (simp add: Let_def)
  qed
qed

lemma takeWhile_upto:
  "0 \<le> k \<Longrightarrow> l + k \<le> n + 1 \<Longrightarrow>
   (k \<le> int (length (takeWhile P [l..n])) \<longleftrightarrow> (\<forall>i \<in> {l..<l + k}. P i))"
proof (induction "nat k" arbitrary: k l)
  case 0
  then show ?case by simp
next
  case (Suc j)
  then have kpos: "0 < k" and le: "l \<le> n" by linarith+
  have up: "[l..n] = l # [l + 1..n]" using le by (simp add: upto_rec1)
  have j: "j = nat (k - 1)" using Suc.hyps(2) by linarith
  have ih: "(k - 1 \<le> int (length (takeWhile P [l + 1..n]))) \<longleftrightarrow> (\<forall>i \<in> {l + 1..<l + 1 + (k - 1)}. P i)"
    using Suc.hyps(1)[OF j, of "l + 1"] Suc.prems kpos by simp
  show ?case
  proof (cases "P l")
    case True
    have seteq: "(\<forall>i \<in> {l..<l + k}. P i) \<longleftrightarrow> (\<forall>i \<in> {l + 1..<l + 1 + (k - 1)}. P i)"
    proof
      assume a: "\<forall>i \<in> {l..<l + k}. P i"
      show "\<forall>i \<in> {l + 1..<l + 1 + (k - 1)}. P i"
      proof
        fix i assume "i \<in> {l + 1..<l + 1 + (k - 1)}"
        then have "i \<in> {l..<l + k}" by simp
        then show "P i" using a by blast
      qed
    next
      assume a: "\<forall>i \<in> {l + 1..<l + 1 + (k - 1)}. P i"
      show "\<forall>i \<in> {l..<l + k}. P i"
      proof
        fix i assume i: "i \<in> {l..<l + k}"
        show "P i"
        proof (cases "i = l")
          case True
          then show ?thesis using \<open>P l\<close> by simp
        next
          case False
          then have "i \<in> {l + 1..<l + 1 + (k - 1)}" using i by simp
          then show ?thesis using a by blast
        qed
      qed
    qed
    have lenT: "int (length (takeWhile P [l..n])) = 1 + int (length (takeWhile P [l + 1..n]))"
      using True up by simp
    have "(k \<le> int (length (takeWhile P [l..n]))) \<longleftrightarrow>
          (k - 1 \<le> int (length (takeWhile P [l + 1..n])))"
      unfolding lenT by linarith
    also have "\<dots> \<longleftrightarrow> (\<forall>i \<in> {l + 1..<l + 1 + (k - 1)}. P i)" by (rule ih)
    also have "\<dots> \<longleftrightarrow> (\<forall>i \<in> {l..<l + k}. P i)" by (rule seteq[symmetric])
    finally show ?thesis .
  next
    case False
    have "l \<in> {l..<l + k}" using kpos by simp
    then show ?thesis using False up kpos by auto
  qed
qed

lemma placed_fields:
  "winLength (placed g move p) = winLength g" "players (placed g move p) = players g"
  "teamCollaboration (placed g move p) = teamCollaboration g"
  "inBounds (placed g move p) r c = inBounds g r c"
  "scanStarts (placed g move p) = scanStarts g"
  "countsTowardWin (placed g move p) a b = countsTowardWin g a b"
  by (simp_all add: placed_def inBounds_def scanStarts_def countsTowardWin_def)

lemma placed_board:
  "board (placed g move p) cell = (if cell = move then Some p else board g cell)"
  by (simp add: placed_def)

lemma winDirections_nonzero:
  assumes "d \<in> set winDirections" and "fst d * i = fst d * k" and "snd d * i = snd d * k"
  shows "i = (k :: int)"
  using assms by (auto simp: winDirections_def)

lemma completes_wins:
  assumes wl: "winLength g = 4" and teamless: "team (players g ! p) = None"
    and inb: "inBounds g mr mc" and d: "d \<in> set winDirections"
    and c: "completes g (mr, mc) p d"
  shows "checkWin (placed g (mr, mc) p) \<noteq> None"
proof -
  let ?g' = "placed g (mr, mc) p"
  let ?Lw = "takeWhile (ownCell g p (mr, mc) d (-1)) [1..3]"
  let ?Rw = "takeWhile (ownCell g p (mr, mc) d 1) [1..3]"
  define L where "L = int (length ?Lw)"
  define R where "R = int (length ?Rw)"
  have sum: "4 \<le> L + R + 1"
    using c wl by (simp add: completes_def chainCount_teamless[OF teamless] L_def R_def)
  have "length ?Lw \<le> length [1..(3::int)]" "length ?Rw \<le> length [1..(3::int)]"
    by (rule length_takeWhile_le)+
  then have bounds: "0 \<le> L" "L \<le> 3" "0 \<le> R" "R \<le> 3" by (simp_all add: L_def R_def)
  have left: "\<forall>i \<in> {1..<1 + L}. ownCell g p (mr, mc) d (-1) i"
    using takeWhile_upto[of L 1 3 "ownCell g p (mr, mc) d (-1)"] bounds by (simp add: L_def)
  have right: "\<forall>i \<in> {1..<1 + R}. ownCell g p (mr, mc) d 1 i"
    using takeWhile_upto[of R 1 3 "ownCell g p (mr, mc) d 1"] bounds by (simp add: R_def)
  define row where "row = mr - fst d * L"
  define col where "col = mc - snd d * L"
  have cells: "inBounds g (row + fst d * i) (col + snd d * i) \<and>
               board ?g' (row + fst d * i, col + snd d * i) = Some p"
    if i: "0 \<le> i" "i < 4" for i
  proof -
    consider "i < L" | "i = L" | "L < i" by linarith
    then show ?thesis
    proof cases
      case 1
      then have "L - i \<in> {1..<1 + L}" using i by simp
      then have "ownCell g p (mr, mc) d (-1) (L - i)" using left by blast
      moreover have "mr + fst d * (L - i) * (-1) = row + fst d * i"
        "mc + snd d * (L - i) * (-1) = col + snd d * i"
        by (simp_all add: row_def col_def algebra_simps)
      ultimately show ?thesis by (simp add: ownCell_def placed_board)
    next
      case 2
      then have "row + fst d * i = mr" "col + snd d * i = mc"
        by (simp_all add: row_def col_def)
      then show ?thesis using inb by (simp add: placed_board)
    next
      case 3
      then have "i - L \<in> {1..<1 + R}" using i sum by simp
      then have "ownCell g p (mr, mc) d 1 (i - L)" using right by blast
      moreover have "mr + fst d * (i - L) * 1 = row + fst d * i"
        "mc + snd d * (i - L) * 1 = col + snd d * i"
        by (simp_all add: row_def col_def algebra_simps)
      ultimately show ?thesis by (simp add: ownCell_def placed_board)
    qed
  qed
  have origin: "inBounds g row col" "board ?g' (row, col) = Some p"
    using cells[of 0] by simp_all
  have "\<forall>i \<in> {1..<4}. cellContinues ?g' p row col d i"
    using cells by (simp add: cellContinues_alt placed_fields countsTowardWin_def)
  then have "qualifyingRun ?g' (winLength ?g') (row, col, d)"
    unfolding qualifyingRun_alt using origin wl by (simp add: placed_fields)
  moreover have "(row, col, d) \<in> set (scanStarts ?g')"
    using origin(1) d by (simp add: placed_fields in_scanStarts)
  ultimately show ?thesis using checkWin_iff[of ?g'] by blast
qed

lemma wins_completes:
  assumes wl: "winLength g = 4" and teamless: "team (players g ! p) = None"
    and nowin: "checkWin g = None"
    and win: "checkWin (placed g (mr, mc) p) \<noteq> None"
  shows "\<exists>d \<in> set winDirections. completes g (mr, mc) p d"
proof -
  let ?g' = "placed g (mr, mc) p"
  obtain start where st: "start \<in> set (scanStarts ?g')" "qualifyingRun ?g' (winLength ?g') start"
    using win checkWin_iff[of ?g'] by blast
  obtain row col d where start: "start = (row, col, d)" by (cases start)
  have inb: "inBounds g row col" and d: "d \<in> set winDirections"
    using st(1) start by (simp_all add: placed_fields in_scanStarts)
  obtain origin where o: "board ?g' (row, col) = Some origin"
    and run: "\<forall>i \<in> {1..<4}. cellContinues ?g' origin row col d i"
    using st(2) wl unfolding start qualifyingRun_alt by (auto simp: placed_fields)
  have "\<exists>k. 0 \<le> k \<and> k < 4 \<and> (row + fst d * k, col + snd d * k) = (mr, mc)"
  proof (rule ccontr)
    assume none: "\<not> (\<exists>k. 0 \<le> k \<and> k < 4 \<and> (row + fst d * k, col + snd d * k) = (mr, mc))"
    have same: "board ?g' (row + fst d * k, col + snd d * k) =
                board g (row + fst d * k, col + snd d * k)" if "0 \<le> k" "k < 4" for k
    proof -
      have "(row + fst d * k, col + snd d * k) \<noteq> (mr, mc)" using none that by blast
      then show ?thesis unfolding placed_board by (simp only: if_False)
    qed
    have "board g (row, col) = Some origin" using same[of 0] o by simp
    moreover have "\<forall>i \<in> {1..<4}. cellContinues g origin row col d i"
      using run same by (simp add: cellContinues_alt placed_fields)
    ultimately have "qualifyingRun g (winLength g) (row, col, d)"
      unfolding qualifyingRun_alt using inb wl by simp
    moreover have "(row, col, d) \<in> set (scanStarts g)" using inb d by (simp add: in_scanStarts)
    ultimately have "checkWin g \<noteq> None" using checkWin_iff[of g] by blast
    then show False using nowin by simp
  qed
  then obtain k where k: "0 \<le> k" "k < 4" "row + fst d * k = mr" "col + snd d * k = mc"
    by auto
  have atk: "board ?g' (row + fst d * k, col + snd d * k) = Some p"
    using k by (simp add: placed_board)
  have op: "origin = p"
  proof (cases "k = 0")
    case True
    then show ?thesis using atk o by simp
  next
    case False
    then have "cellContinues ?g' origin row col d k" using run k by simp
    then have "countsTowardWin g origin p"
      using atk by (simp add: cellContinues_alt placed_fields)
    then show ?thesis using teamless by (simp add: countsTowardWin_def split: if_splits)
  qed
  have all: "inBounds g (row + fst d * i) (col + snd d * i) \<and>
             board ?g' (row + fst d * i, col + snd d * i) = Some p"
    if i: "0 \<le> i" "i < 4" for i
  proof (cases "i = 0")
    case True
    then show ?thesis using inb o op by simp
  next
    case False
    then have cc: "cellContinues ?g' p row col d i" using run i op by simp
    then obtain q where q: "board ?g' (row + fst d * i, col + snd d * i) = Some q"
      "countsTowardWin g p q"
      by (auto simp: cellContinues_alt placed_fields)
    have "q = p" using q(2) teamless by (simp add: countsTowardWin_def split: if_splits)
    then show ?thesis using cc q(1) by (simp add: cellContinues_alt placed_fields)
  qed
  have others: "inBounds g (row + fst d * i) (col + snd d * i) \<and>
                board g (row + fst d * i, col + snd d * i) = Some p"
    if i: "0 \<le> i" "i < 4" "i \<noteq> k" for i
  proof -
    have "(row + fst d * i, col + snd d * i) \<noteq> (mr, mc)"
    proof
      assume "(row + fst d * i, col + snd d * i) = (mr, mc)"
      then have "row + fst d * i = row + fst d * k" "col + snd d * i = col + snd d * k"
        using k(3,4) by (simp_all only: prod.inject)
      then have "fst d * i = fst d * k" "snd d * i = snd d * k" by linarith+
      then have "i = k" using winDirections_nonzero[OF d] by blast
      then show False using i(3) by simp
    qed
    then have "board ?g' (row + fst d * i, col + snd d * i) =
               board g (row + fst d * i, col + snd d * i)"
      unfolding placed_board by (simp only: if_False)
    then show ?thesis using all[OF i(1,2)] by simp
  qed
  have left: "\<forall>j \<in> {1..<1 + k}. ownCell g p (mr, mc) d (-1) j"
  proof
    fix j assume j: "j \<in> {1..<1 + k}"
    have "mr + fst d * j * (-1) = row + fst d * (k - j)" "mc + snd d * j * (-1) = col + snd d * (k - j)"
      using k by (simp_all add: algebra_simps)
    then show "ownCell g p (mr, mc) d (-1) j"
      using others[of "k - j"] j k by (simp add: ownCell_def)
  qed
  have right: "\<forall>j \<in> {1..<1 + (3 - k)}. ownCell g p (mr, mc) d 1 j"
  proof
    fix j assume j: "j \<in> {1..<1 + (3 - k)}"
    have "mr + fst d * j * 1 = row + fst d * (k + j)" "mc + snd d * j * 1 = col + snd d * (k + j)"
      using k by (simp_all add: algebra_simps)
    then show "ownCell g p (mr, mc) d 1 j"
      using others[of "k + j"] j k by (simp add: ownCell_def)
  qed
  have "k \<le> int (length (takeWhile (ownCell g p (mr, mc) d (-1)) [1..3]))"
    using takeWhile_upto[of k 1 3 "ownCell g p (mr, mc) d (-1)"] left k by simp
  moreover have "3 - k \<le> int (length (takeWhile (ownCell g p (mr, mc) d 1) [1..3]))"
    using takeWhile_upto[of "3 - k" 1 3 "ownCell g p (mr, mc) d 1"] right k by simp
  ultimately have "completes g (mr, mc) p d"
    using wl by (simp add: completes_def chainCount_teamless[OF teamless])
  then show ?thesis using d by blast
qed

lemma getValidMoves_inBounds:
  "(row, col) \<in> set (getValidMoves g) \<Longrightarrow> inBounds g row col"
  by (auto simp: getValidMoves_def inBounds_def split: if_splits)

text \<open>
  With \<^verbatim>\<open>winLength = 4\<close>, for a moving player without a team and a board that holds
  no win yet: when exactly one legal move wins at once, \<^verbatim>\<open>OffensiveAI.getMove\<close>
  returns it; \<^verbatim>\<open>evaluateMove\<close> scores it 1000 and every other legal move below 1000.
\<close>

theorem offensive_ai_without_team:
  assumes wl: "winLength g = 4" and teamless: "team (players g ! p) = None"
    and nowin: "checkWin g = None"
    and one: "filter (\<lambda>move. checkWin (placed g move p) \<noteq> None) (getValidMoves g) = [m]"
  shows "offensiveGetMove g p randomIndex = Some m \<and> evaluateMove g m p = 1000 \<and>
         (\<forall>other \<in> set (getValidMoves g). other \<noteq> m \<longrightarrow> evaluateMove g other p < 1000)"
proof -
  let ?wins = "\<lambda>move. checkWin (placed g move p) \<noteq> None"
  have score: "evaluateMove g x p = 1000 \<longleftrightarrow> ?wins x" if x: "x \<in> set (getValidMoves g)" for x
  proof -
    obtain row col where xc: "x = (row, col)" by (cases x)
    have inb: "inBounds g row col" using x xc getValidMoves_inBounds by simp
    have "?wins x \<longleftrightarrow> (\<exists>d \<in> set winDirections. completes g (row, col) p d)"
      unfolding xc using completes_wins[OF wl teamless inb] wins_completes[OF wl teamless nowin]
      by auto
    then show ?thesis using evaluateMove_1000(1)[OF wl, of x p] xc by simp
  qed
  have mem: "set (filter ?wins (getValidMoves g)) = {m}" using one by simp
  then have m: "m \<in> set (getValidMoves g)" "?wins m" by auto
  have uniq: "\<And>x. x \<in> set (getValidMoves g) \<Longrightarrow> ?wins x \<Longrightarrow> x = m" using mem by auto
  have top: "evaluateMove g m p = 1000" using score[OF m(1)] m(2) by simp
  have le: "\<And>x. evaluateMove g x p \<le> 1000" using evaluateMove_1000(2)[OF wl] by simp
  have only: "\<And>x. x \<in> set (getValidMoves g) \<Longrightarrow> evaluateMove g x p = 1000 \<Longrightarrow> x = m"
    using score uniq by blast
  have "fst (bestOffensive g p (getValidMoves g) (None, -1)) = Some m"
    by (rule bestOffensive_unique[OF le only m(1) top]) simp_all
  then have "offensiveGetMove g p randomIndex = Some m"
    by (simp add: offensiveGetMove_def Let_def)
  moreover have "\<forall>other \<in> set (getValidMoves g). other \<noteq> m \<longrightarrow> evaluateMove g other p < 1000"
    using only le by (metis order_le_less)
  ultimately show ?thesis using top by simp
qed

theorem offensive_ai_without_team_example:
  "offensiveGetMove soloGame 0 0 = Some (2, 3) \<and> evaluateMove soloGame (2, 3) 0 = 1000"
proof -
  have "let g = soloGame in
          winLength g = 4 \<and> team (players g ! 0) = None \<and> checkWin g = None \<and>
          filter (\<lambda>move. checkWin (placed g move 0) \<noteq> None) (getValidMoves g) = [(2, 3)]"
    by code_simp
  then have a: "winLength soloGame = 4" and b: "team (players soloGame ! 0) = None"
    and c: "checkWin soloGame = None"
    and d: "filter (\<lambda>move. checkWin (placed soloGame move 0) \<noteq> None)
            (getValidMoves soloGame) = [(2, 3)]"
    by (simp_all only: Let_def)
  show ?thesis using offensive_ai_without_team[OF a b c d, of 0] by simp
qed

section \<open>The offensive strategy and teammates\<close>

text \<open>
  Claim C8 says that with \<^verbatim>\<open>winLength = 4\<close>, when exactly one legal move completes four
  in a row for the moving player, \<^verbatim>\<open>OffensiveAI.getMove\<close> returns that move, being the
  only one \<^verbatim>\<open>evaluateMove\<close> scores 1000. \<^verbatim>\<open>evaluateMove\<close> counts the cells of
  teammates into the chain whether or not team collaboration is enabled, while
  \<^verbatim>\<open>checkWin\<close> counts them only when it is. \<^const>\<open>rivalGame\<close> is reached by nine
  legal moves from a fresh game; collaboration is disabled and it is the turn of
  player 0. The only legal move that wins is \<open>(2, 3)\<close>,
  yet \<open>(0, 3)\<close>, which would extend the three cells of teammate 1 and wins nothing,
  also scores 1000, comes first in the enumeration and is the move returned.
\<close>

theorem offensive_ai_prefers_teammate_run:
  "winLength rivalGame = 4 \<and> teamCollaboration rivalGame = False \<and>
   gameOver rivalGame = False \<and> currentPlayerIndex rivalGame = 0 \<and>
   map (\<lambda>cell. (cell, board rivalGame cell)) (occupiedPositions rivalGame) =
     [((0, 0), Some 1), ((0, 1), Some 1), ((0, 2), Some 1),
      ((2, 0), Some 0), ((2, 1), Some 0), ((2, 2), Some 0),
      ((4, 0), Some 2), ((4, 2), Some 2), ((4, 4), Some 2)] \<and>
   map (\<lambda>move. (move, fst (checkWinningMove rivalGame (fst move) (snd move) 0)))
     (filter (\<lambda>move. fst (checkWinningMove rivalGame (fst move) (snd move) 0) \<noteq> Inr None)
        (getValidMoves rivalGame)) =
     [((2, 3), Inr (Some \<lparr>resultWinner = ''Team 1'',
                            resultCells = [(2, 0), (2, 1), (2, 2), (2, 3)],
                            resultPlayerIndex = 0\<rparr>))] \<and>
   evaluateMove rivalGame (2, 3) 0 = 1000 \<and>
   evaluateMove rivalGame (0, 3) 0 = 1000 \<and>
   fst (checkWinningMove rivalGame 0 3 0) = Inr None \<and>
   offensiveGetMove rivalGame 0 0 = Some (0, 3)"
proof -
  have "let g = rivalGame in
          winLength g = 4 \<and> teamCollaboration g = False \<and>
          gameOver g = False \<and> currentPlayerIndex g = 0 \<and>
          map (\<lambda>cell. (cell, board g cell)) (occupiedPositions g) =
            [((0, 0), Some 1), ((0, 1), Some 1), ((0, 2), Some 1),
             ((2, 0), Some 0), ((2, 1), Some 0), ((2, 2), Some 0),
             ((4, 0), Some 2), ((4, 2), Some 2), ((4, 4), Some 2)] \<and>
          map (\<lambda>move. (move, fst (checkWinningMove g (fst move) (snd move) 0)))
            (filter (\<lambda>move. fst (checkWinningMove g (fst move) (snd move) 0) \<noteq> Inr None)
               (getValidMoves g)) =
            [((2, 3), Inr (Some \<lparr>resultWinner = ''Team 1'',
                                   resultCells = [(2, 0), (2, 1), (2, 2), (2, 3)],
                                   resultPlayerIndex = 0\<rparr>))] \<and>
          evaluateMove g (2, 3) 0 = 1000 \<and>
          evaluateMove g (0, 3) 0 = 1000 \<and>
          fst (checkWinningMove g 0 3 0) = Inr None \<and>
          offensiveGetMove g 0 0 = Some (0, 3)"
    by code_simp
  then show ?thesis by (simp only: Let_def)
qed

end
